theory Spec2Isabelle
  imports Complex_Main "HOL-Library.AList"
begin

section \<open>Errors and parameter trees\<close>

text \<open>
  The agent of \<^verbatim>\<open>bbf/agents/spr_agent.py\<close> works on nested parameter dictionaries
  whose leaves are arrays. Arrays are modelled as lists of reals (the flattened tensor),
  so arithmetic is exact real arithmetic and not floating point. A Python dictionary is
  an association list in insertion order; its keys are distinct. Every exception the
  source can raise is a value of \<open>error\<close>.
\<close>

datatype error = KeyError | IndexError | TypeError | AttributeError | ValueError | ShapeError

type_synonym tensor = "real list"

datatype ptree = Leaf tensor | Dict "(string \<times> ptree) list" | Tup "ptree list"

type_synonym pdict = "(string \<times> ptree) list"

definition ebind :: "error + 'a \<Rightarrow> ('a \<Rightarrow> error + 'b) \<Rightarrow> error + 'b" where
  "ebind m f = (case m of Inl e \<Rightarrow> Inl e | Inr x \<Rightarrow> f x)"

text \<open>\<^verbatim>\<open>d[k]\<close>: a missing key raises, and so does indexing an array or a tuple by a name.\<close>

fun subscript :: "ptree \<Rightarrow> string \<Rightarrow> error + ptree" where
  "subscript (Dict d) k = (case map_of d k of None \<Rightarrow> Inl KeyError | Some v \<Rightarrow> Inr v)"
| "subscript (Leaf t) k = Inl TypeError"
| "subscript (Tup ts) k = Inl TypeError"

text \<open>\<^verbatim>\<open>d.items()\<close> and \<^verbatim>\<open>d.keys()\<close> exist on dictionaries only.\<close>

fun dict_items :: "ptree \<Rightarrow> error + pdict" where
  "dict_items (Dict d) = Inr d"
| "dict_items (Leaf t) = Inl AttributeError"
| "dict_items (Tup ts) = Inl AttributeError"

subsection \<open>copy_params\<close>

text \<open>
  \<^verbatim>\<open>
  def copy_params(source, target, keys=("encoder", "transition_model")):
      if (isinstance(source, dict) or ... isinstance(source, FrozenDict)):
          fresh_dict = {}
          for k, v in source.items():
              if k in keys:
                  fresh_dict[k] = v
              else:
                  fresh_dict[k] = copy_params(source[k], target[k], keys)
          return fresh_dict
      else:
          return target
  \<close>
  \<open>copy_items\<close> is the loop; its last argument is \<^verbatim>\<open>fresh_dict\<close>.
\<close>

fun copy_params :: "ptree \<Rightarrow> ptree \<Rightarrow> string list \<Rightarrow> error + ptree"
and copy_items :: "pdict \<Rightarrow> ptree \<Rightarrow> string list \<Rightarrow> pdict \<Rightarrow> error + pdict"
where
  "copy_params (Dict src) target keys =
     (case copy_items src target keys [] of
        Inl e \<Rightarrow> Inl e
      | Inr fresh_dict \<Rightarrow> Inr (Dict fresh_dict))"
| "copy_params (Leaf t) target keys = Inr target"
| "copy_params (Tup ts) target keys = Inr target"
| "copy_items [] target keys fresh_dict = Inr fresh_dict"
| "copy_items ((k, v) # rest) target keys fresh_dict =
     (if k \<in> set keys then copy_items rest target keys (AList.update k v fresh_dict)
      else (case subscript target k of
              Inl e \<Rightarrow> Inl e
            | Inr tk \<Rightarrow>
                (case copy_params v tk keys of
                   Inl e \<Rightarrow> Inl e
                 | Inr r \<Rightarrow> copy_items rest target keys (AList.update k r fresh_dict))))"

subsection \<open>interpolate_weights\<close>

text \<open>
  \<^verbatim>\<open>combination(old_param, new_param) = old_param * old_weight + new_param * new_weight\<close>,
  elementwise on two arrays of one shape (parameters of one architecture; broadcasting
  between different shapes is not modelled and is an error here).
\<close>

definition combination :: "real \<Rightarrow> real \<Rightarrow> tensor \<Rightarrow> tensor \<Rightarrow> error + tensor" where
  "combination old_weight new_weight old_param new_param =
     (if length old_param = length new_param
      then Inr (map2 (\<lambda>p q. p * old_weight + q * new_weight) old_param new_param)
      else Inl ShapeError)"

text \<open>
  \<^verbatim>\<open>jax.tree_util.tree_map(f, a, b)\<close>: both trees must have one structure (the same keys
  in every dictionary, whatever their order; the same length of every tuple), otherwise
  it raises ValueError. The result keeps the structure of the first tree.
\<close>

fun tree_map2 :: "(tensor \<Rightarrow> tensor \<Rightarrow> error + tensor) \<Rightarrow> ptree \<Rightarrow> ptree \<Rightarrow> error + ptree"
and tree_map2_items :: "(tensor \<Rightarrow> tensor \<Rightarrow> error + tensor) \<Rightarrow> pdict \<Rightarrow> pdict \<Rightarrow> error + pdict"
and tree_map2_list :: "(tensor \<Rightarrow> tensor \<Rightarrow> error + tensor) \<Rightarrow> ptree list \<Rightarrow> ptree list \<Rightarrow> error + ptree list"
where
  "tree_map2 f (Leaf a) (Leaf b) = (case f a b of Inl e \<Rightarrow> Inl e | Inr c \<Rightarrow> Inr (Leaf c))"
| "tree_map2 f (Dict d) (Dict d') =
     (if set (map fst d) = set (map fst d')
      then (case tree_map2_items f d d' of Inl e \<Rightarrow> Inl e | Inr r \<Rightarrow> Inr (Dict r))
      else Inl ValueError)"
| "tree_map2 f (Tup ts) (Tup ts') =
     (case tree_map2_list f ts ts' of Inl e \<Rightarrow> Inl e | Inr r \<Rightarrow> Inr (Tup r))"
| "tree_map2 f (Leaf a) (Dict d') = Inl ValueError"
| "tree_map2 f (Leaf a) (Tup ts') = Inl ValueError"
| "tree_map2 f (Dict d) (Leaf b) = Inl ValueError"
| "tree_map2 f (Dict d) (Tup ts') = Inl ValueError"
| "tree_map2 f (Tup ts) (Leaf b) = Inl ValueError"
| "tree_map2 f (Tup ts) (Dict d') = Inl ValueError"
| "tree_map2_items f [] d' = Inr []"
| "tree_map2_items f ((k, v) # rest) d' =
     (case map_of d' k of
        None \<Rightarrow> Inl ValueError
      | Some v' \<Rightarrow>
          (case tree_map2 f v v' of
             Inl e \<Rightarrow> Inl e
           | Inr r \<Rightarrow>
               (case tree_map2_items f rest d' of
                  Inl e \<Rightarrow> Inl e
                | Inr rs \<Rightarrow> Inr ((k, r) # rs))))"
| "tree_map2_list f [] [] = Inr []"
| "tree_map2_list f (t # ts) (t' # ts') =
     (case tree_map2 f t t' of
        Inl e \<Rightarrow> Inl e
      | Inr r \<Rightarrow>
          (case tree_map2_list f ts ts' of Inl e \<Rightarrow> Inl e | Inr rs \<Rightarrow> Inr (r # rs)))"
| "tree_map2_list f [] (t' # ts') = Inl ValueError"
| "tree_map2_list f (t # ts) [] = Inl ValueError"

text \<open>
  \<^verbatim>\<open>
  def interpolate_weights(old_params, new_params, keys, old_weight=0.5,
                          new_weight=0.5, strip_params_layer=True):
      if strip_params_layer:
          old_params = old_params["params"]
          new_params = new_params["params"]
      combined_params = {}
      if keys is None:
          keys = old_params.keys()
      for k in keys:
          combined_params[k] = jax.tree_util.tree_map(combination, old_params[k],
                                                      new_params[k])
      for k, v in old_params.items():
          if k not in keys:
              combined_params[k] = v
      if strip_params_layer:
          combined_params = {"params": combined_params}
      return FrozenDict(combined_params)
  \<close>
\<close>

fun combine_keys :: "real \<Rightarrow> real \<Rightarrow> ptree \<Rightarrow> ptree \<Rightarrow> string list \<Rightarrow> pdict \<Rightarrow> error + pdict" where
  "combine_keys ow nw old_params new_params [] combined_params = Inr combined_params"
| "combine_keys ow nw old_params new_params (k # ks) combined_params =
     ebind (subscript old_params k) (\<lambda>old_k.
     ebind (subscript new_params k) (\<lambda>new_k.
     ebind (tree_map2 (combination ow nw) old_k new_k) (\<lambda>r.
       combine_keys ow nw old_params new_params ks (AList.update k r combined_params))))"

fun keep_other_keys :: "pdict \<Rightarrow> string list \<Rightarrow> pdict \<Rightarrow> pdict" where
  "keep_other_keys [] keys combined_params = combined_params"
| "keep_other_keys ((k, v) # rest) keys combined_params =
     keep_other_keys rest keys
       (if k \<notin> set keys then AList.update k v combined_params else combined_params)"

definition interpolate_weights ::
  "ptree \<Rightarrow> ptree \<Rightarrow> string list option \<Rightarrow> real \<Rightarrow> real \<Rightarrow> bool \<Rightarrow> error + ptree" where
  "interpolate_weights old_params new_params keys old_weight new_weight strip_params_layer =
     ebind (if strip_params_layer then subscript old_params ''params'' else Inr old_params) (\<lambda>old_p.
     ebind (if strip_params_layer then subscript new_params ''params'' else Inr new_params) (\<lambda>new_p.
     ebind (case keys of None \<Rightarrow> ebind (dict_items old_p) (\<lambda>d. Inr (map fst d)) | Some ks \<Rightarrow> Inr ks) (\<lambda>ks.
     ebind (combine_keys old_weight new_weight old_p new_p ks []) (\<lambda>combined.
     ebind (dict_items old_p) (\<lambda>old_items.
       (let combined_params = keep_other_keys old_items ks combined
        in Inr (if strip_params_layer then Dict [(''params'', Dict combined_params)]
                else Dict combined_params)))))))"

subsection \<open>jit_reset\<close>

text \<open>
  An optimizer state is a tuple of named tuples; a named tuple is the association list of
  its fields (\<^verbatim>\<open>_asdict()\<close>). \<^verbatim>\<open>nt._replace(**kw)\<close> raises ValueError on a name that is
  not a field.
\<close>

type_synonym named_tuple = pdict

fun replace_fields :: "named_tuple \<Rightarrow> pdict \<Rightarrow> error + named_tuple" where
  "replace_fields nt [] = Inr nt"
| "replace_fields nt ((k, v) # kw) =
     (if k \<in> fst ` set nt then replace_fields (AList.update k v nt) kw else Inl ValueError)"

text \<open>
  The loop \<^verbatim>\<open>for i in range(len(optim_state))\<close> of \<^verbatim>\<open>jit_reset\<close>: the fresh state's
  \<open>i\<close>-th entry takes the fields that \<^verbatim>\<open>copy_params\<close> builds from the old state's
  \<open>i\<close>-th entry.
\<close>

fun update_optim_state :: "named_tuple list \<Rightarrow> named_tuple list \<Rightarrow> nat \<Rightarrow> string list \<Rightarrow> error + named_tuple list" where
  "update_optim_state optimizer_state [] i keys = Inr []"
| "update_optim_state optimizer_state (s # ss) i keys =
     (if i < length optimizer_state
      then ebind (copy_params (Dict (optimizer_state ! i)) (Dict s) keys) (\<lambda>optim_to_copy.
           ebind (dict_items optim_to_copy) (\<lambda>kw.
           ebind (replace_fields s kw) (\<lambda>s'.
           ebind (update_optim_state optimizer_state ss (Suc i) keys) (\<lambda>rest.
             Inr (s' # rest)))))
      else Inl IndexError)"

text \<open>
  What the agent takes from outside this file is a parameter of the model. Keys of the
  random generator have type \<open>'r\<close>, observations type \<open>'o\<close>.
  \<open>split\<close> is \<^verbatim>\<open>jax.random.split(rng)\<close>, \<open>split_n\<close> is \<^verbatim>\<open>jax.random.split(rng, n)\<close>,
  \<open>randint key n lo hi\<close> is \<^verbatim>\<open>jax.random.randint(key, (n,), lo, hi)\<close>, \<open>network_init\<close> is
  \<^verbatim>\<open>network_def.init(rng, method=network_def.init_fn, x=state, actions=actions,
  do_rollout=do_rollout, support=support)\<close> as a function of the key alone (the other
  arguments are fixed for one agent), \<open>optimizer_init\<close> is \<^verbatim>\<open>optimizer.init\<close>,
  \<open>process_inputs\<close> is \<^verbatim>\<open>spr_networks.process_inputs\<close> without data augmentation, and
  \<open>get_policy params x key\<close> is the policy head
  \<^verbatim>\<open>network_def.apply(params, x, rngs={"action_sample": key}, method=network_def.get_policy)\<close>,
  which returns the logits over the actions and an action sampled from them.
\<close>

record ('r, 'o) externals =
  split :: "'r \<Rightarrow> 'r \<times> 'r"
  split_n :: "'r \<Rightarrow> nat \<Rightarrow> 'r list"
  randint :: "'r \<Rightarrow> nat \<Rightarrow> int \<Rightarrow> int \<Rightarrow> int list"
  network_init :: "'r \<Rightarrow> ptree"
  optimizer_init :: "ptree \<Rightarrow> named_tuple list"
  process_inputs :: "'o list \<Rightarrow> 'r \<Rightarrow> 'o list"
  get_policy :: "ptree \<Rightarrow> 'o \<Rightarrow> 'r \<Rightarrow> real list \<times> int"

definition jit_reset ::
  "('r, 'o) externals \<Rightarrow> ptree \<Rightarrow> ptree \<Rightarrow> named_tuple list \<Rightarrow> 'r \<Rightarrow> bool \<Rightarrow> string list \<Rightarrow> real \<Rightarrow> real
     \<Rightarrow> string list \<Rightarrow> error + (ptree \<times> ptree \<times> named_tuple list \<times> ptree)" where
  "jit_reset ext online_params target_network_params optimizer_state rng reset_target
     shrink_perturb_keys shrink_factor perturb_factor keys_to_copy =
     (let (online_rng, target_rng) = split ext rng;
          random_params = network_init ext online_rng;
          target_random_params = network_init ext target_rng
      in
      ebind (if shrink_perturb_keys \<noteq> []
             then interpolate_weights online_params random_params (Some shrink_perturb_keys)
                    shrink_factor perturb_factor True
             else Inr online_params) (\<lambda>online1.
      ebind (copy_params online1 random_params keys_to_copy) (\<lambda>online2.
      ebind (update_optim_state optimizer_state (optimizer_init ext online2) 0 keys_to_copy) (\<lambda>optim2.
      ebind (if reset_target
             then ebind (if shrink_perturb_keys \<noteq> []
                         then interpolate_weights target_network_params target_random_params
                                (Some shrink_perturb_keys) shrink_factor perturb_factor True
                         else Inr target_network_params) (\<lambda>target1.
                  copy_params target1 target_random_params keys_to_copy)
             else Inr target_network_params) (\<lambda>target2.
        Inr (online2, target2, optim2, random_params))))))"

section \<open>The agent\<close>

text \<open>
  The fields of \<^verbatim>\<open>BBFAgent\<close> that the reset and the action selection read or write.
\<close>

record 'r agent =
  online_params :: ptree
  target_network_params :: ptree
  optimizer_state :: "named_tuple list"
  random_params :: ptree
  rng :: 'r
  training_steps :: int
  cumulative_resets :: int
  next_reset :: int
  reset_every :: int
  no_resets_after :: int
  reset_offset :: int
  cycle_grad_steps :: int
  reset_target :: bool
  shrink_perturb_keys :: "string list"
  shrink_factor :: real
  perturb_factor :: real
  min_replay_history :: real
  num_actions :: int
  eval_mode :: bool
  stats_ent :: real

text \<open>
  \<^verbatim>\<open>
  def reset_weights(self):
      self.cumulative_resets += 1
      interval = self.reset_every
      self.next_reset = int(interval) + self.training_steps
      if self.next_reset > self.no_resets_after + self.reset_offset:
          logging.info(...)
          return
      else:
          logging.info(...)
      self._rng, reset_rng = jax.random.split(self._rng, 2)
      keys_to_copy = ("encoder", "transition_model", "_log_alpha")
      (self.online_params, self.target_network_params, self.optimizer_state,
       self.random_params) = jit_reset(...)
      self.cycle_grad_steps = 0
  \<close>
\<close>

definition keys_to_copy :: "string list" where
  "keys_to_copy = [''encoder'', ''transition_model'', ''_log_alpha'']"

definition reset_weights :: "('r, 'o) externals \<Rightarrow> 'r agent \<Rightarrow> error + 'r agent" where
  "reset_weights ext a =
     (let a1 = a\<lparr>cumulative_resets := cumulative_resets a + 1\<rparr>;
          interval = reset_every a1;
          a2 = a1\<lparr>next_reset := interval + training_steps a1\<rparr>
      in if next_reset a2 > no_resets_after a2 + reset_offset a2 then Inr a2
         else
           (let (rng', reset_rng) = split ext (rng a2);
                a3 = a2\<lparr>rng := rng'\<rparr>
            in ebind (jit_reset ext (online_params a3) (target_network_params a3)
                        (optimizer_state a3) reset_rng (reset_target a3)
                        (shrink_perturb_keys a3) (shrink_factor a3) (perturb_factor a3)
                        keys_to_copy)
                 (\<lambda>(op, tp, os, rp).
                    Inr (a3\<lparr>online_params := op, target_network_params := tp,
                            optimizer_state := os, random_params := rp,
                            cycle_grad_steps := 0\<rparr>))))"

text \<open>
  The reset test of \<^verbatim>\<open>_train_step\<close>:
  \<^verbatim>\<open>if self.reset_every > 0 and self.training_steps > self.next_reset: self.reset_weights()\<close>.
\<close>

definition reset_triggered :: "'r agent \<Rightarrow> bool" where
  "reset_triggered a = (reset_every a > 0 \<and> training_steps a > next_reset a)"

section \<open>The prefetching generator\<close>

text \<open>
  \<^verbatim>\<open>
  def prefetch_to_device(iterator, size):
      queue = collections.deque()
      def enqueue(n):  # Enqueues *up to* `n` elements from the iterator.
          for data in itertools.islice(iterator, n):
              queue.append(data)
      enqueue(size)  # Fill up the buffer.
      while queue:
          yield queue.popleft()
          enqueue(1)
  \<close>
  The underlying iterator is a state \<open>s\<close> with a step function \<open>nxt\<close>: \<open>nxt s\<close> is
  \<open>None\<close> when the iterator raises StopIteration (and the state stays what it is, so an
  exhausted iterator stays exhausted), and otherwise the next element with the next
  state. It may run forever. \<open>enqueue\<close> works on the pair of the iterator state and the
  queue.
\<close>


fun enqueue :: "('s \<Rightarrow> ('a \<times> 's) option) \<Rightarrow> nat \<Rightarrow> 's \<times> 'a list \<Rightarrow> 's \<times> 'a list" where
  "enqueue nxt 0 (s, queue) = (s, queue)"
| "enqueue nxt (Suc n) (s, queue) =
     (case nxt s of None \<Rightarrow> (s, queue) | Some (data, s') \<Rightarrow> enqueue nxt n (s', queue @ [data]))"

text \<open>
  A generator object is not started, or suspended at its \<^verbatim>\<open>yield\<close> (holding the
  iterator and the queue as \<^verbatim>\<open>popleft\<close> left it), or finished. \<open>filled\<close> is the state
  the next call reaches before it tests \<^verbatim>\<open>while queue\<close>: the first call runs
  \<^verbatim>\<open>enqueue(size)\<close>, a later one \<^verbatim>\<open>enqueue(1)\<close>. This is where the queue is longest.
  \<open>prefetch_next\<close> is one \<^verbatim>\<open>next()\<close> on the generator; \<open>None\<close> is StopIteration.
\<close>

datatype ('a, 's) generator = Unstarted 's | Suspended 's "'a list" | Finished

fun filled :: "('s \<Rightarrow> ('a \<times> 's) option) \<Rightarrow> nat \<Rightarrow> ('a, 's) generator \<Rightarrow> ('s \<times> 'a list) option" where
  "filled nxt qsize (Unstarted s) = Some (enqueue nxt qsize (s, []))"
| "filled nxt qsize (Suspended s queue) = Some (enqueue nxt 1 (s, queue))"
| "filled nxt qsize Finished = None"

definition prefetch_next :: "('s \<Rightarrow> ('a \<times> 's) option) \<Rightarrow> nat \<Rightarrow> ('a, 's) generator \<Rightarrow> 'a option \<times> ('a, 's) generator" where
  "prefetch_next nxt qsize g =
     (case filled nxt qsize g of
        None \<Rightarrow> (None, Finished)
      | Some (s, []) \<Rightarrow> (None, Finished)
      | Some (s, data # queue) \<Rightarrow> (Some data, Suspended s queue))"

text \<open>
  The first \<open>n\<close> values the generator yields (fewer if it stops before), the generator
  after \<open>n\<close> calls, and the first \<open>n\<close> elements of the underlying iterator with the
  state it is left in.
\<close>

fun prefetch_take :: "('s \<Rightarrow> ('a \<times> 's) option) \<Rightarrow> nat \<Rightarrow> nat \<Rightarrow> ('a, 's) generator \<Rightarrow> 'a list" where
  "prefetch_take nxt qsize 0 g = []"
| "prefetch_take nxt qsize (Suc n) g =
     (case prefetch_next nxt qsize g of
        (None, g') \<Rightarrow> []
      | (Some data, g') \<Rightarrow> data # prefetch_take nxt qsize n g')"

fun prefetch_after :: "('s \<Rightarrow> ('a \<times> 's) option) \<Rightarrow> nat \<Rightarrow> nat \<Rightarrow> ('a, 's) generator \<Rightarrow> ('a, 's) generator" where
  "prefetch_after nxt qsize 0 g = g"
| "prefetch_after nxt qsize (Suc n) g = prefetch_after nxt qsize n (snd (prefetch_next nxt qsize g))"

fun queue_of :: "('s \<times> 'a list) option \<Rightarrow> 'a list" where
  "queue_of None = []"
| "queue_of (Some (s, queue)) = queue"

fun iter_take :: "('s \<Rightarrow> ('a \<times> 's) option) \<Rightarrow> nat \<Rightarrow> 's \<Rightarrow> 'a list" where
  "iter_take nxt 0 s = []"
| "iter_take nxt (Suc n) s = (case nxt s of None \<Rightarrow> [] | Some (data, s') \<Rightarrow> data # iter_take nxt n s')"

fun iter_drop :: "('s \<Rightarrow> ('a \<times> 's) option) \<Rightarrow> nat \<Rightarrow> 's \<Rightarrow> 's" where
  "iter_drop nxt 0 s = s"
| "iter_drop nxt (Suc n) s = (case nxt s of None \<Rightarrow> s | Some (data, s') \<Rightarrow> iter_drop nxt n s')"

text \<open>
  The invariant of the generator between two calls, for a queue depth of \<open>m + 1\<close>: the
  queue of a suspended generator holds the next \<open>m\<close> elements after some position
  \<open>t\<close> of the iterator, and the iterator stands behind them.
\<close>

definition tracked :: "('s \<Rightarrow> ('a \<times> 's) option) \<Rightarrow> nat \<Rightarrow> ('a, 's) generator \<Rightarrow> bool" where
  "tracked nxt m g = (g = Finished \<or> (\<exists>t. g = Unstarted t) \<or> (\<exists>t. g = Suspended (iter_drop nxt m t) (iter_take nxt m t)))"

section \<open>Action selection\<close>

text \<open>
  \<^verbatim>\<open>jnp.argmax\<close> is the index of the first largest entry, and raises on an empty axis.
  \<^verbatim>\<open>jax.nn.softmax\<close> and \<^verbatim>\<open>scipy.stats.entropy\<close> (which normalises its argument and
  counts \<open>0 log 0\<close> as 0) are taken over the reals.
\<close>

fun argmax_from :: "real list \<Rightarrow> nat \<Rightarrow> nat \<Rightarrow> real \<Rightarrow> nat" where
  "argmax_from [] i best v = best"
| "argmax_from (x # xs) i best v =
     (if x > v then argmax_from xs (Suc i) i x else argmax_from xs (Suc i) best v)"

fun argmax :: "real list \<Rightarrow> error + nat" where
  "argmax [] = Inl ValueError"
| "argmax (x # xs) = Inr (argmax_from xs 1 0 x)"

fun argmax_all :: "real list list \<Rightarrow> error + nat list" where
  "argmax_all [] = Inr []"
| "argmax_all (l # ls) =
     ebind (argmax l) (\<lambda>i. ebind (argmax_all ls) (\<lambda>is. Inr (i # is)))"

definition softmax :: "real list \<Rightarrow> real list" where
  "softmax logits = map (\<lambda>x. exp x / sum_list (map exp logits)) logits"

definition entropy :: "real list \<Rightarrow> real" where
  "entropy pk = sum_list (map (\<lambda>p. let q = p / sum_list pk in if q > 0 then - q * ln q else 0) pk)"

text \<open>
  \<^verbatim>\<open>
  def select_action(network_def, params, state, rng, num_actions, eval_mode):
      rng, key = jax.random.split(rng)
      state = spr_networks.process_inputs(state, rng=key, data_augmentation=False,
                                          dtype=jnp.float32)
      def logits_w_samples(state, action_sample_key):
          return network_def.apply(params, state,
              rngs={"action_sample": action_sample_key}, method=network_def.get_policy)
      rng, key = jax.random.split(key)
      key = jax.random.split(key, state.shape[0])
      logits, samples = jax.vmap(logits_w_samples, in_axes=0, axis_name="batch")(state, key)
      new_actions = jnp.where(eval_mode, jnp.argmax(logits, axis=-1), samples)
      return rng, new_actions, jax.nn.softmax(logits)
  \<close>
  The state is a batch of observations, a list along axis 0.
\<close>

definition select_action ::
  "('r, 'o) externals \<Rightarrow> ptree \<Rightarrow> 'o list \<Rightarrow> 'r \<Rightarrow> int \<Rightarrow> bool \<Rightarrow> error + ('r \<times> int list \<times> real list list)" where
  "select_action ext params state rng0 n_actions eval_flag =
     (let (rng1, key1) = split ext rng0;
          state1 = process_inputs ext state key1;
          (rng2, key2) = split ext key1;
          keys = split_n ext key2 (length state1);
          outs = map2 (get_policy ext params) state1 keys;
          logits = map fst outs;
          samples = map snd outs
      in ebind (argmax_all logits) (\<lambda>best.
           Inr (rng2, (if eval_flag then map int best else samples), map softmax logits)))"

text \<open>
  \<^verbatim>\<open>
  def select_action(self, state, select_params, eval_mode):
      if not eval_mode and self.training_steps < self.min_replay_history:
          self._rng, key = jax.random.split(self._rng)
          return jax.random.randint(key, (state.shape[0],), 0, self.num_actions)
      self._rng, action, probs = select_action(self.network_def, select_params, state,
          self._rng, self.num_actions,
          False,
          #eval_mode,
      )
      if not self.eval_mode:
          self.stats_ent = 0.99 * self.stats_ent + 0.01 * scipy.stats.entropy(probs[0])
      return action
  \<close>
  The method of \<^verbatim>\<open>BBFAgent\<close>; it returns the action and the agent it leaves behind.
\<close>

definition agent_select_action ::
  "('r, 'o) externals \<Rightarrow> 'r agent \<Rightarrow> 'o list \<Rightarrow> ptree \<Rightarrow> bool \<Rightarrow> error + ('r agent \<times> int list)" where
  "agent_select_action ext a state select_params eval_flag =
     (if \<not> eval_flag \<and> real_of_int (training_steps a) < min_replay_history a
      then (let (rng', key) = split ext (rng a)
            in Inr (a\<lparr>rng := rng'\<rparr>, randint ext key (length state) 0 (num_actions a)))
      else ebind (select_action ext select_params state (rng a) (num_actions a) False)
             (\<lambda>(rng', action, probs).
                (let a1 = a\<lparr>rng := rng'\<rparr>
                 in if \<not> eval_mode a1
                    then (case probs of
                            [] \<Rightarrow> Inl IndexError
                          | p0 # ps \<Rightarrow>
                              Inr (a1\<lparr>stats_ent := 0.99 * stats_ent a1 + 0.01 * entropy p0\<rparr>, action))
                    else Inr (a1, action))))"

text \<open>
  What the policy head returns on the batch: the samples and the logits that
  \<^verbatim>\<open>select_action\<close> gets from \<^verbatim>\<open>get_policy\<close> under the keys it derives from its key.
\<close>

definition policy_samples :: "('r, 'o) externals \<Rightarrow> ptree \<Rightarrow> 'o list \<Rightarrow> 'r \<Rightarrow> int list" where
  "policy_samples ext params state rng0 =
     (let key1 = snd (split ext rng0);
          state1 = process_inputs ext state key1;
          keys = split_n ext (snd (split ext key1)) (length state1)
      in map snd (map2 (get_policy ext params) state1 keys))"

definition policy_logits :: "('r, 'o) externals \<Rightarrow> ptree \<Rightarrow> 'o list \<Rightarrow> 'r \<Rightarrow> real list list" where
  "policy_logits ext params state rng0 =
     (let key1 = snd (split ext rng0);
          state1 = process_inputs ext state key1;
          keys = split_n ext (snd (split ext key1)) (length state1)
      in map fst (map2 (get_policy ext params) state1 keys))"

section \<open>Comparing parameter trees\<close>

text \<open>
  \<open>tree_all2 P a b\<close>: the two trees have one structure (the same keys in every
  dictionary, whatever their order, and tuples of one length) and \<open>P\<close> holds of every
  pair of corresponding arrays. With \<open>P\<close> the equality of shapes this is "structurally
  identical"; with \<open>P\<close> the equality of arrays it is equality of the two trees as Python
  values, which does not see the order of the keys.
\<close>

fun tree_all2 :: "(tensor \<Rightarrow> tensor \<Rightarrow> bool) \<Rightarrow> ptree \<Rightarrow> ptree \<Rightarrow> bool"
and items_all2 :: "(tensor \<Rightarrow> tensor \<Rightarrow> bool) \<Rightarrow> pdict \<Rightarrow> pdict \<Rightarrow> bool"
and trees_all2 :: "(tensor \<Rightarrow> tensor \<Rightarrow> bool) \<Rightarrow> ptree list \<Rightarrow> ptree list \<Rightarrow> bool"
where
  "tree_all2 P (Leaf a) (Leaf b) = P a b"
| "tree_all2 P (Dict d) (Dict d') = (set (map fst d) = set (map fst d') \<and> items_all2 P d d')"
| "tree_all2 P (Tup ts) (Tup ts') = trees_all2 P ts ts'"
| "tree_all2 P (Leaf a) (Dict d') = False"
| "tree_all2 P (Leaf a) (Tup ts') = False"
| "tree_all2 P (Dict d) (Leaf b) = False"
| "tree_all2 P (Dict d) (Tup ts') = False"
| "tree_all2 P (Tup ts) (Leaf b) = False"
| "tree_all2 P (Tup ts) (Dict d') = False"
| "items_all2 P [] d' = True"
| "items_all2 P ((k, v) # rest) d' =
     (case map_of d' k of None \<Rightarrow> False | Some v' \<Rightarrow> tree_all2 P v v' \<and> items_all2 P rest d')"
| "trees_all2 P [] [] = True"
| "trees_all2 P (t # ts) (t' # ts') = (tree_all2 P t t' \<and> trees_all2 P ts ts')"
| "trees_all2 P [] (t' # ts') = False"
| "trees_all2 P (t # ts) [] = False"

definition same_structure :: "ptree \<Rightarrow> ptree \<Rightarrow> bool" where
  "same_structure a b = tree_all2 (\<lambda>x y. length x = length y) a b"

definition tree_eq :: "ptree \<Rightarrow> ptree \<Rightarrow> bool" where
  "tree_eq a b = tree_all2 (=) a b"

text \<open>
  The parameter groups of a tree: the dictionary under the outer \<^verbatim>\<open>"params"\<close> layer, or
  the tree itself when there is no such layer. \<open>interpolated keys d\<close> are the names that
  \<^verbatim>\<open>interpolate_weights\<close> interpolates: \<open>keys\<close>, or every group when \<open>keys\<close> is
  \<^verbatim>\<open>None\<close>.
\<close>

definition param_groups :: "bool \<Rightarrow> ptree \<Rightarrow> error + pdict" where
  "param_groups strip_params_layer p =
     ebind (if strip_params_layer then subscript p ''params'' else Inr p) dict_items"

definition interpolated :: "string list option \<Rightarrow> pdict \<Rightarrow> string list" where
  "interpolated keys d = (case keys of None \<Rightarrow> map fst d | Some ks \<Rightarrow> ks)"

section \<open>Well-formed trees\<close>

text \<open>
  A Python dictionary has every key once; \<open>wf_tree\<close> says so of every dictionary of a
  tree. \<open>no_key_inside keys t\<close>: no dictionary of \<open>t\<close>, at any depth that
  \<^verbatim>\<open>copy_params\<close> reaches, has a key named in \<open>keys\<close>.
\<close>

fun wf_tree :: "ptree \<Rightarrow> bool" where
  "wf_tree (Leaf a) = True"
| "wf_tree (Dict d) = (distinct (map fst d) \<and> (\<forall>p\<in>set d. wf_tree (snd p)))"
| "wf_tree (Tup ts) = (\<forall>t\<in>set ts. wf_tree t)"

fun no_key_inside :: "string list \<Rightarrow> ptree \<Rightarrow> bool" where
  "no_key_inside keys (Leaf a) = True"
| "no_key_inside keys (Dict d) = (\<forall>p\<in>set d. fst p \<notin> set keys \<and> no_key_inside keys (snd p))"
| "no_key_inside keys (Tup ts) = True"

definition wf_items :: "pdict \<Rightarrow> bool" where
  "wf_items d = (distinct (map fst d) \<and> (\<forall>p\<in>set d. wf_tree (snd p)))"

text \<open>
  The online parameters after the shrink-and-perturb step of \<^verbatim>\<open>jit_reset\<close> and before
  \<^verbatim>\<open>copy_params\<close>: the pre-reset value that a copied group keeps.
\<close>

definition shrink_perturbed ::
  "('r, 'o) externals \<Rightarrow> ptree \<Rightarrow> 'r \<Rightarrow> string list \<Rightarrow> real \<Rightarrow> real \<Rightarrow> error + ptree" where
  "shrink_perturbed ext online rng0 spk sf pf =
     (if spk \<noteq> []
      then interpolate_weights online (network_init ext (fst (split ext rng0))) (Some spk) sf pf True
      else Inr online)"

section \<open>The scheduler\<close>

text \<open>
  The scheduler computes with floating-point numbers. They are modelled by the reals,
  with the three special values that \<^verbatim>\<open>np.log\<close> of a number that is not positive brings
  in: \<^verbatim>\<open>np.log(0)\<close> is \<open>-inf\<close> and \<^verbatim>\<open>np.log\<close> of a negative number is \<open>nan\<close> (a warning,
  not an exception). The arithmetic on them is that of IEEE 754: \<open>inf - inf\<close> and
  \<open>0 * inf\<close> are \<open>nan\<close>, \<open>exp(-inf)\<close> is 0. Rounding is not modelled.
\<close>

datatype xreal = Fin real | PInf | MInf | NaN

definition np_log :: "real \<Rightarrow> xreal" where
  "np_log x = (if 0 < x then Fin (ln x) else if x = 0 then MInf else NaN)"

definition np_clip :: "real \<Rightarrow> real \<Rightarrow> real \<Rightarrow> real" where
  "np_clip a a_min a_max = min (max a a_min) a_max"

fun xsub :: "xreal \<Rightarrow> xreal \<Rightarrow> xreal" where
  "xsub (Fin a) (Fin b) = Fin (a - b)"
| "xsub NaN y = NaN"
| "xsub x NaN = NaN"
| "xsub PInf PInf = NaN"
| "xsub MInf MInf = NaN"
| "xsub PInf y = PInf"
| "xsub MInf y = MInf"
| "xsub (Fin a) PInf = MInf"
| "xsub (Fin a) MInf = PInf"

fun xadd :: "xreal \<Rightarrow> xreal \<Rightarrow> xreal" where
  "xadd (Fin a) (Fin b) = Fin (a + b)"
| "xadd NaN y = NaN"
| "xadd x NaN = NaN"
| "xadd PInf MInf = NaN"
| "xadd MInf PInf = NaN"
| "xadd PInf y = PInf"
| "xadd MInf y = MInf"
| "xadd (Fin a) PInf = PInf"
| "xadd (Fin a) MInf = MInf"

fun xscale :: "real \<Rightarrow> xreal \<Rightarrow> xreal" where
  "xscale c (Fin a) = Fin (c * a)"
| "xscale c NaN = NaN"
| "xscale c PInf = (if 0 < c then PInf else if c < 0 then MInf else NaN)"
| "xscale c MInf = (if 0 < c then MInf else if c < 0 then PInf else NaN)"

fun np_exp :: "xreal \<Rightarrow> xreal" where
  "np_exp (Fin a) = Fin (exp a)"
| "np_exp PInf = PInf"
| "np_exp MInf = Fin 0"
| "np_exp NaN = NaN"

fun one_minus :: "xreal \<Rightarrow> xreal" where
  "one_minus (Fin a) = Fin (1 - a)"
| "one_minus PInf = MInf"
| "one_minus MInf = PInf"
| "one_minus NaN = NaN"

text \<open>
  \<^verbatim>\<open>
  def exponential_decay_scheduler(decay_period, warmup_steps, initial_value,
                                  final_value, reverse=False):
      if reverse:
          initial_value = 1 - initial_value
          final_value = 1 - final_value
      start = np.log(initial_value)
      end = np.log(final_value)
      if decay_period == 0:
          return lambda x: initial_value if x < warmup_steps else final_value
      def scheduler(step):
          steps_left = decay_period + warmup_steps - step
          bonus_frac = steps_left / decay_period
          bonus = np.clip(bonus_frac, 0.0, 1.0)
          new_value = bonus * (start - end) + end
          new_value = np.exp(new_value)
          if reverse:
              new_value = 1 - new_value
          return new_value
      return scheduler
  \<close>
  The model takes the step as its last argument.
\<close>

definition exponential_decay_scheduler ::
  "real \<Rightarrow> real \<Rightarrow> real \<Rightarrow> real \<Rightarrow> bool \<Rightarrow> real \<Rightarrow> xreal" where
  "exponential_decay_scheduler decay_period warmup_steps initial_value final_value reverse =
     (let initial_value' = (if reverse then 1 - initial_value else initial_value);
          final_value' = (if reverse then 1 - final_value else final_value);
          start = np_log initial_value';
          end' = np_log final_value'
      in if decay_period = 0
         then (\<lambda>x. Fin (if x < warmup_steps then initial_value' else final_value'))
         else (\<lambda>step.
                 (let steps_left = decay_period + warmup_steps - step;
                      bonus_frac = steps_left / decay_period;
                      bonus = np_clip bonus_frac 0 1;
                      new_value = xadd (xscale bonus (xsub start end')) end';
                      new_value' = np_exp new_value
                  in if reverse then one_minus new_value' else new_value')))"

section \<open>The categorical projection\<close>

text \<open>
  Division, clipping and summation on the floats of the previous section:
  \<open>x / 0\<close> is \<open>nan\<close> for \<open>x = 0\<close> and an infinity otherwise; \<^verbatim>\<open>jnp.clip\<close> sends an
  infinity to the bound and keeps \<open>nan\<close>.
\<close>

definition xdiv :: "real \<Rightarrow> real \<Rightarrow> xreal" where
  "xdiv a b = (if b \<noteq> 0 then Fin (a / b) else if 0 < a then PInf else if a < 0 then MInf else NaN)"

fun xdivx :: "real \<Rightarrow> xreal \<Rightarrow> xreal" where
  "xdivx a (Fin b) = xdiv a b"
| "xdivx a PInf = Fin 0"
| "xdivx a MInf = Fin 0"
| "xdivx a NaN = NaN"

fun xclip :: "xreal \<Rightarrow> real \<Rightarrow> real \<Rightarrow> xreal" where
  "xclip (Fin a) a_min a_max = Fin (np_clip a a_min a_max)"
| "xclip PInf a_min a_max = Fin a_max"
| "xclip MInf a_min a_max = Fin (min a_min a_max)"
| "xclip NaN a_min a_max = NaN"

definition xsum :: "xreal list \<Rightarrow> xreal" where
  "xsum xs = foldl xadd (Fin 0) xs"

text \<open>
  \<open>emap\<close> applies a function that may raise to every element, in order.
  \<open>broadcast_mul\<close> is the product \<^verbatim>\<open>clipped_quotient * weights\<close> on one row of the
  matrix: shapes \<open>(N, M)\<close> and \<open>(K,)\<close> broadcast when \<open>K = M\<close>, or when one of the two
  is 1; every other pair of shapes raises.
\<close>

fun emap :: "('a \<Rightarrow> error + 'b) \<Rightarrow> 'a list \<Rightarrow> error + 'b list" where
  "emap f [] = Inr []"
| "emap f (x # xs) = ebind (f x) (\<lambda>y. ebind (emap f xs) (\<lambda>ys. Inr (y # ys)))"

definition broadcast_mul :: "xreal list \<Rightarrow> real list \<Rightarrow> error + xreal list" where
  "broadcast_mul row weights =
     (if length row = length weights then Inr (map2 (\<lambda>q w. xscale w q) row weights)
      else if length weights = 1 then Inr (map (xscale (hd weights)) row)
      else if length row = 1 then Inr (map (\<lambda>w. xscale w (hd row)) weights)
      else Inl ShapeError)"

text \<open>
  \<^verbatim>\<open>
  def project_distribution(supports, weights, target_support):
      v_min, v_max = target_support[0], target_support[-1]
      num_dims = target_support.shape[0]
      delta_z = (v_max - v_min) / (num_dims - 1)
      clipped_support = jnp.clip(supports, v_min, v_max)
      numerator = jnp.abs(clipped_support - target_support[:, None])
      quotient = 1 - (numerator / delta_z)
      clipped_quotient = jnp.clip(quotient, 0, 1)
      inner_prod = clipped_quotient * weights
      return jnp.squeeze(jnp.sum(inner_prod, -1))
  \<close>
  The three arguments are vectors. The matrix \<^verbatim>\<open>clipped_quotient\<close> has a row for each
  atom of \<^verbatim>\<open>target_support\<close> and a column for each entry of \<^verbatim>\<open>supports\<close>.
\<close>

definition project_distribution :: "real list \<Rightarrow> real list \<Rightarrow> real list \<Rightarrow> error + xreal list" where
  "project_distribution supports weights target_support =
     (case target_support of
        [] \<Rightarrow> Inl IndexError
      | z0 # zs \<Rightarrow>
          (let v_min = z0;
               v_max = last target_support;
               num_dims = length target_support;
               delta_z = xdiv (v_max - v_min) (real (num_dims - 1));
               clipped_support = map (\<lambda>s. np_clip s v_min v_max) supports;
               clipped_quotient =
                 map (\<lambda>z. map (\<lambda>c. xclip (one_minus (xdivx \<bar>c - z\<bar> delta_z)) 0 1) clipped_support)
                   target_support
           in ebind (emap (\<lambda>row. broadcast_mul row weights) clipped_quotient)
                (\<lambda>inner_prod. Inr (map xsum inner_prod))))"

text \<open>
  A support is equally spaced when its \<open>i\<close>-th atom is the first plus \<open>i\<close> times the
  spacing \<open>(v_max - v_min) / (N - 1)\<close>. \<open>hat d z c\<close> is the share of a point \<open>c\<close> that
  goes to the atom \<open>z\<close>, and \<open>projected\<close> the result of the projection in real numbers,
  used in the proofs.
\<close>

definition equally_spaced :: "real list \<Rightarrow> bool" where
  "equally_spaced zs =
     (zs = map (\<lambda>i. hd zs + real i * ((last zs - hd zs) / real (length zs - 1))) [0..<length zs])"

definition spacing :: "real list \<Rightarrow> real" where
  "spacing zs = (last zs - hd zs) / real (length zs - 1)"

definition hat :: "real \<Rightarrow> real \<Rightarrow> real \<Rightarrow> real" where
  "hat d z c = np_clip (1 - \<bar>c - z\<bar> / d) 0 1"

definition projected :: "real list \<Rightarrow> real list \<Rightarrow> real list \<Rightarrow> real list" where
  "projected supports weights target_support =
     map (\<lambda>z. sum_list (map2 (\<lambda>c w. hat (spacing target_support) z c * w)
              (map (\<lambda>s. np_clip s (hd target_support) (last target_support)) supports) weights))
       target_support"

section \<open>Priorities\<close>

text \<open>
  The part of the training step that the priorities come from. The network is outside
  this file: for each sampled transition the model takes what the networks return, the
  target network's probabilities for the next action (\<^verbatim>\<open>next_probabilities\<close> in
  \<^verbatim>\<open>target_output\<close>) and the online network's logits for the action taken
  (\<^verbatim>\<open>chosen_action_logits\<close> in \<^verbatim>\<open>loss_fn\<close>).
\<close>

fun xneg :: "xreal \<Rightarrow> xreal" where
  "xneg (Fin a) = Fin (- a)"
| "xneg PInf = MInf"
| "xneg MInf = PInf"
| "xneg NaN = NaN"

fun xdivr :: "xreal \<Rightarrow> real \<Rightarrow> xreal" where
  "xdivr (Fin a) b = xdiv a b"
| "xdivr PInf b = (if 0 \<le> b then PInf else MInf)"
| "xdivr MInf b = (if 0 \<le> b then MInf else PInf)"
| "xdivr NaN b = NaN"

fun np_sqrt :: "xreal \<Rightarrow> xreal" where
  "np_sqrt (Fin a) = (if 0 \<le> a then Fin (sqrt a) else NaN)"
| "np_sqrt PInf = PInf"
| "np_sqrt MInf = NaN"
| "np_sqrt NaN = NaN"

text \<open>
  \<^verbatim>\<open>jnp.mean\<close> of an empty vector is \<open>0 / 0\<close>;
  \<^verbatim>\<open>flax.linen.log_softmax(x) = x - log(sum(exp(x)))\<close>;
  \<^verbatim>\<open>softmax_cross_entropy_loss_with_logits(labels, logits) =
  -jnp.sum(labels * flax.linen.log_softmax(logits))\<close>.
\<close>

definition jnp_mean :: "xreal list \<Rightarrow> xreal" where
  "jnp_mean xs = xdivr (xsum xs) (real (length xs))"

definition log_softmax :: "real list \<Rightarrow> real list" where
  "log_softmax logits = map (\<lambda>x. x - ln (sum_list (map exp logits))) logits"

definition softmax_cross_entropy_loss_with_logits :: "xreal list \<Rightarrow> real list \<Rightarrow> error + xreal" where
  "softmax_cross_entropy_loss_with_logits labels logits =
     ebind (broadcast_mul labels (log_softmax logits)) (\<lambda>prod. Inr (xneg (xsum prod)))"

record transition =
  next_probabilities :: "real list"
  rewards :: real
  terminals :: bool
  cumulative_gamma :: real
  chosen_action_logits :: "real list"

text \<open>
  \<^verbatim>\<open>
  def target_output(...):
      gamma_with_terminal = (cumulative_gamma * (1.0 - terminals.astype(jnp.float32)))
      ...
      next_probabilities = probabilities[next_qt_argmax]
      target_support = rewards + gamma_with_terminal * support
      target = project_distribution(target_support, next_probabilities, support)
  \<close>
  and, in \<^verbatim>\<open>loss_fn\<close>,
  \<^verbatim>\<open>dqn_loss = jax.vmap(softmax_cross_entropy_loss_with_logits)(target, chosen_action_logits)\<close>.
\<close>

definition target_output :: "real list \<Rightarrow> real \<Rightarrow> bool \<Rightarrow> real list \<Rightarrow> real \<Rightarrow> error + xreal list" where
  "target_output next_probs reward terminal support cum_gamma =
     (let gamma_with_terminal = cum_gamma * (1 - (if terminal then 1 else 0));
          target_support = map (\<lambda>z. reward + gamma_with_terminal * z) support
      in project_distribution target_support next_probs support)"

definition dqn_loss :: "real list \<Rightarrow> transition \<Rightarrow> error + xreal" where
  "dqn_loss support tr =
     ebind (target_output (next_probabilities tr) (rewards tr) (terminals tr) support
              (cumulative_gamma tr))
       (\<lambda>target. softmax_cross_entropy_loss_with_logits target (chosen_action_logits tr))"

text \<open>
  What a transition must satisfy for the theorem below: the probabilities and the logits
  have one entry for each atom of the support, and no probability is negative.
\<close>

definition valid_transition :: "real list \<Rightarrow> transition \<Rightarrow> bool" where
  "valid_transition support tr =
     (length (next_probabilities tr) = length support
      \<and> (\<forall>p\<in>set (next_probabilities tr). 0 \<le> p)
      \<and> length (chosen_action_logits tr) = length support)"

text \<open>
  Each sub-batch of a training step reports \<^verbatim>\<open>"DQNLoss": jnp.mean(dqn_loss)\<close>, and
  \<^verbatim>\<open>_training_step_update\<close> writes back
  \<^verbatim>\<open>priorities = np.sqrt(dqn_loss + 1e-10)\<close>, one number for each sub-batch.
\<close>

definition priorities :: "real list \<Rightarrow> transition list list \<Rightarrow> error + xreal list" where
  "priorities support batches =
     ebind (emap (\<lambda>batch. ebind (emap (dqn_loss support) batch) (\<lambda>losses. Inr (jnp_mean losses)))
              batches)
       (\<lambda>dqn_losses. Inr (map (\<lambda>l. np_sqrt (xadd l (Fin (1 / 10 ^ 10)))) dqn_losses))"

section \<open>The self-predictive loss\<close>

text \<open>
  From \<^verbatim>\<open>loss_fn\<close> in \<^verbatim>\<open>train\<close>:
  \<^verbatim>\<open>
  spr_predictions = spr_predictions.transpose(1, 0, 2)
  spr_predictions = spr_predictions.reshape(*spr_predictions.shape[:2], 2, 2048)
  spr_predictions = spr_predictions / jnp.linalg.norm(spr_predictions, 2, -1, keepdims=True)
  spr_targets = spr_targets.reshape(*spr_targets.shape[:2], 2, 2048)
  spr_targets = spr_targets / jnp.linalg.norm(spr_targets, 2, -1, keepdims=True)
  spr_loss = jnp.power(spr_predictions - spr_targets, 2).sum((-1, -2))
  spr_loss = (spr_loss * same_traj_mask.transpose(1, 0)).mean(0) * .5
  \<close>
  with, before it in \<^verbatim>\<open>train_one_batch\<close>, \<^verbatim>\<open>same_traj_mask = same_traj_mask[:, 1:]\<close> and
  \<^verbatim>\<open>spr_targets = spr_targets.transpose(1, 0, 2)\<close>. The model takes what the networks
  return: \<open>latent\<close>, the predicted latents (batch, time, 4096), and \<open>spr_targets0\<close>, the
  encoded future observations (batch, time, 4096); and the mask as sampled (batch,
  time + 1). An array is a list along its first axis. Predictions, targets and mask
  must have one shape; broadcasting between different shapes is not modelled and is an
  error here. The mean over axis 0 is the mean of every row of the transposed matrix.
\<close>

fun xsquare :: "xreal \<Rightarrow> xreal" where
  "xsquare (Fin a) = Fin (a * a)"
| "xsquare PInf = PInf"
| "xsquare MInf = PInf"
| "xsquare NaN = NaN"

definition reshape_2_2048 :: "real list \<Rightarrow> error + real list list" where
  "reshape_2_2048 v = (if length v = 2 * 2048 then Inr [take 2048 v, drop 2048 v] else Inl ShapeError)"

definition l2_normalize :: "real list \<Rightarrow> xreal list" where
  "l2_normalize v = map (\<lambda>a. xdiv a (sqrt (sum_list (map (\<lambda>b. b * b) v)))) v"

definition sq_dist :: "xreal list list \<Rightarrow> xreal list list \<Rightarrow> xreal" where
  "sq_dist p z = xsum (concat (map2 (map2 (\<lambda>a b. xsquare (xsub a b))) p z))"

definition spr_loss :: "real list list list \<Rightarrow> real list list list \<Rightarrow> bool list list \<Rightarrow> error + xreal list" where
  "spr_loss latent spr_targets0 same_traj_mask0 =
     (let same_traj_mask = map (drop 1) same_traj_mask0;
          spr_targets1 = transpose spr_targets0;
          spr_predictions1 = transpose latent
      in ebind (emap (emap reshape_2_2048) spr_predictions1) (\<lambda>spr_predictions2.
         ebind (emap (emap reshape_2_2048) spr_targets1) (\<lambda>spr_targets2.
           (let spr_predictions = map (map (map l2_normalize)) spr_predictions2;
                spr_targets = map (map (map l2_normalize)) spr_targets2;
                mask_t = transpose same_traj_mask
            in if map length spr_predictions \<noteq> map length spr_targets
                  \<or> map length spr_predictions \<noteq> map length mask_t
               then Inl ShapeError
               else (let spr_loss1 = map2 (map2 sq_dist) spr_predictions spr_targets;
                         spr_loss2 = map2 (map2 (\<lambda>l m. xscale (of_bool m) l)) spr_loss1 mask_t
                     in Inr (map (\<lambda>column. xscale (1 / 2) (jnp_mean column))
                               (transpose spr_loss2)))))))"

text \<open>
  The same in real numbers, for one transition: the two halves of a latent are
  normalised each on its own, \<open>chunk_dist\<close> is the squared distance summed over both
  halves, and \<open>transition_spr_loss\<close> is one half of the mean, over all time steps, of
  the distances of the steps whose flag is set (a step whose flag is not set counts as 0).
\<close>

definition l2_normalize_real :: "real list \<Rightarrow> real list" where
  "l2_normalize_real v = map (\<lambda>a. a / sqrt (sum_list (map (\<lambda>b. b * b) v))) v"

definition sq_dist_real :: "real list \<Rightarrow> real list \<Rightarrow> real" where
  "sq_dist_real p z = sum_list (map2 (\<lambda>a b. (a - b) * (a - b)) p z)"

definition chunk_dist :: "real list \<Rightarrow> real list \<Rightarrow> real" where
  "chunk_dist p z =
     sq_dist_real (l2_normalize_real (take 2048 p)) (l2_normalize_real (take 2048 z))
     + sq_dist_real (l2_normalize_real (drop 2048 p)) (l2_normalize_real (drop 2048 z))"

definition transition_spr_loss :: "real list list \<Rightarrow> real list list \<Rightarrow> bool list \<Rightarrow> real" where
  "transition_spr_loss ps zs ms =
     1 / 2 * (sum_list (map2 (\<lambda>pz m. of_bool m * chunk_dist (fst pz) (snd pz)) (zip ps zs) (drop 1 ms))
              / real (length ps))"

text \<open>
  The loss in the words of the specification: every latent vector is normalised as a
  whole, the squared distances of the steps whose flag is set are averaged over those
  steps, over the whole batch, and the average is halved.
\<close>

definition spr_loss_claimed :: "real list list list \<Rightarrow> real list list list \<Rightarrow> bool list list \<Rightarrow> real" where
  "spr_loss_claimed latent spr_targets same_traj_mask =
     (let steps = concat (map2 (\<lambda>pzs ms. zip pzs (drop 1 ms))
                            (map2 zip latent spr_targets) same_traj_mask);
          valid = filter snd steps
      in 1 / 2 * (sum_list (map (\<lambda>s. sq_dist_real (l2_normalize_real (fst (fst s)))
                                        (l2_normalize_real (snd (fst s)))) valid)
                  / real (length valid)))"

text \<open>
  The inputs of the theorem below: a batch that is not empty, \<open>T \<ge> 1\<close> time steps,
  latents of 4096 entries none of whose halves is the zero vector (whose normalisation
  is \<open>0 / 0\<close>), and a mask of \<open>T + 1\<close> flags for each transition.
\<close>

definition sum_sq :: "real list \<Rightarrow> real" where
  "sum_sq v = sum_list (map (\<lambda>b. b * b) v)"

definition good_latent :: "real list \<Rightarrow> bool" where
  "good_latent p = (length p = 4096 \<and> sum_sq (take 2048 p) \<noteq> 0 \<and> sum_sq (drop 2048 p) \<noteq> 0)"

definition spr_shapes :: "nat \<Rightarrow> real list list list \<Rightarrow> real list list list \<Rightarrow> bool list list \<Rightarrow> bool" where
  "spr_shapes T latent spr_targets0 same_traj_mask0 =
     (0 < T \<and> latent \<noteq> []
      \<and> length spr_targets0 = length latent \<and> length same_traj_mask0 = length latent
      \<and> (\<forall>ps\<in>set latent. length ps = T \<and> (\<forall>p\<in>set ps. good_latent p))
      \<and> (\<forall>zs\<in>set spr_targets0. length zs = T \<and> (\<forall>z\<in>set zs. good_latent z))
      \<and> (\<forall>ms\<in>set same_traj_mask0. length ms = Suc T))"

definition normalized_chunks :: "real list \<Rightarrow> xreal list list" where
  "normalized_chunks p = map l2_normalize [take 2048 p, drop 2048 p]"

definition rect :: "nat \<Rightarrow> 'a list list \<Rightarrow> bool" where
  "rect n xss = (xss \<noteq> [] \<and> (\<forall>xs\<in>set xss. length xs = n))"

section \<open>Concrete inputs\<close>

text \<open>
  A small agent over integer keys: splitting key \<open>n\<close> gives \<open>2n\<close> and \<open>2n + 1\<close>, the
  network initialised with key \<open>n\<close> has an encoder \<open>[n]\<close> and a head \<open>[n + 100]\<close>, and
  the optimizer state is one masked state holding a copy of the parameters. Its policy
  head has two actions, gives the logits \<open>[0, 1]\<close> (arg-max: action 1) and samples
  action 0.
\<close>

definition ex_ext :: "(nat, real) externals" where
  "ex_ext = \<lparr>split = (\<lambda>n. (2 * n, 2 * n + 1)),
            split_n = (\<lambda>n k. map (\<lambda>i. n + i) [0..<k]),
            randint = (\<lambda>n k lo hi. replicate k (lo + int n mod (hi - lo))),
            network_init = (\<lambda>n. Dict [(''params'',
               Dict [(''encoder'', Leaf [real n]), (''head'', Leaf [real n + 100])])]),
            optimizer_init = (\<lambda>p. [[(''inner_state'', Tup [p])]]),
            process_inputs = (\<lambda>xs key. xs),
            get_policy = (\<lambda>p x key. ([0, 1], 0))\<rparr>"

definition ex_agent :: "int \<Rightarrow> nat agent" where
  "ex_agent nra =
     \<lparr>online_params = Dict [(''params'', Dict [(''encoder'', Leaf [5]), (''head'', Leaf [6])])],
      target_network_params = Dict [(''params'', Dict [(''encoder'', Leaf [7]), (''head'', Leaf [8])])],
      optimizer_state = [[(''inner_state'', Tup [Leaf [9]])]],
      random_params = Dict [(''params'', Dict [(''encoder'', Leaf [0]), (''head'', Leaf [0])])],
      rng = 1, training_steps = 10, cumulative_resets = 1, next_reset = 6, reset_every = 5,
      no_resets_after = nra, reset_offset = 1, cycle_grad_steps = 7, reset_target = True,
      shrink_perturb_keys = [], shrink_factor = 0.8, perturb_factor = 0.2,
      min_replay_history = 2000, num_actions = 2, eval_mode = False, stats_ent = 0\<rparr>"

text \<open>A list as an iterator.\<close>

definition list_iter :: "'a list \<Rightarrow> ('a \<times> 'a list) option" where
  "list_iter xs = (case xs of [] \<Rightarrow> None | x # rest \<Rightarrow> Some (x, rest))"

text \<open>The same agent in evaluation mode, past its replay-history threshold.\<close>

definition eval_agent :: "nat agent" where
  "eval_agent = (ex_agent 12)\<lparr>eval_mode := True, training_steps := 5000\<rparr>"

text \<open>
  A network whose head has a sub-module that is itself called \<open>encoder\<close>, and online
  parameters of that architecture.
\<close>

definition nested_ext :: "(nat, real) externals" where
  "nested_ext = ex_ext\<lparr>network_init := (\<lambda>n. Dict [(''params'',
       Dict [(''encoder'', Leaf [real n]),
             (''head'', Dict [(''encoder'', Leaf [real n + 100]), (''w'', Leaf [real n + 200])])])])\<rparr>"

definition nested_online :: ptree where
  "nested_online = Dict [(''params'',
       Dict [(''encoder'', Leaf [5]),
             (''head'', Dict [(''encoder'', Leaf [6]), (''w'', Leaf [7])])])]"

text \<open>
  A transition whose target distribution is all zero, so that its value loss is exactly 0.
\<close>

definition zero_loss_transition :: transition where
  "zero_loss_transition = \<lparr>next_probabilities = [0, 0, 0], rewards = 1, terminals = False,
     cumulative_gamma = 9 / 10, chosen_action_logits = [0, 0, 0]\<rparr>"

text \<open>
  Two latents: in both halves, \<open>vec_a\<close> is the first unit vector and \<open>vec_b\<close> the
  second.
\<close>

definition vec_a :: "real list" where
  "vec_a = (1 # replicate 2047 0) @ (1 # replicate 2047 0)"

definition vec_b :: "real list" where
  "vec_b = (0 # 1 # replicate 2046 0) @ (0 # 1 # replicate 2046 0)"

section \<open>Properties\<close>

subsection \<open>A skipped reset\<close>

text \<open>
  C1 (as the code has it). The test of \<^verbatim>\<open>reset_weights\<close> is
  \<open>reset_every + training_steps > no_resets_after + reset_offset\<close>. Whenever it holds the
  call returns without touching the online parameters, the target parameters, the
  optimizer state, the stored random parameters, the random key or \<open>cycle_grad_steps\<close>;
  it has by then added one to \<open>cumulative_resets\<close> and set \<open>next_reset\<close> to
  \<open>reset_every + training_steps\<close>.
\<close>

theorem reset_weights_skip:
  assumes "reset_every a + training_steps a > no_resets_after a + reset_offset a"
  shows "\<exists>a'. reset_weights ext a = Inr a'
           \<and> online_params a' = online_params a
           \<and> target_network_params a' = target_network_params a
           \<and> optimizer_state a' = optimizer_state a
           \<and> random_params a' = random_params a
           \<and> rng a' = rng a
           \<and> cycle_grad_steps a' = cycle_grad_steps a
           \<and> cumulative_resets a' = cumulative_resets a + 1
           \<and> next_reset a' = reset_every a + training_steps a"
  using assms by (simp add: reset_weights_def Let_def)

theorem reset_weights_skip_witness:
  "reset_every (ex_agent 12) + training_steps (ex_agent 12)
     > no_resets_after (ex_agent 12) + reset_offset (ex_agent 12)
   \<and> (\<exists>a'. reset_weights ex_ext (ex_agent 12) = Inr a'
           \<and> online_params a' = online_params (ex_agent 12)
           \<and> target_network_params a' = target_network_params (ex_agent 12)
           \<and> optimizer_state a' = optimizer_state (ex_agent 12)
           \<and> cycle_grad_steps a' = 7
           \<and> cumulative_resets a' = 2
           \<and> next_reset a' = 15)"
proof -
  have h: "reset_every (ex_agent 12) + training_steps (ex_agent 12)
     > no_resets_after (ex_agent 12) + reset_offset (ex_agent 12)"
    by (simp add: ex_agent_def)
  from reset_weights_skip [OF h, of ex_ext] obtain a' where
    "reset_weights ex_ext (ex_agent 12) = Inr a'"
    "online_params a' = online_params (ex_agent 12)"
    "target_network_params a' = target_network_params (ex_agent 12)"
    "optimizer_state a' = optimizer_state (ex_agent 12)"
    "cycle_grad_steps a' = cycle_grad_steps (ex_agent 12)"
    "cumulative_resets a' = cumulative_resets (ex_agent 12) + 1"
    "next_reset a' = reset_every (ex_agent 12) + training_steps (ex_agent 12)"
    by blast
  then have "reset_weights ex_ext (ex_agent 12) = Inr a'
           \<and> online_params a' = online_params (ex_agent 12)
           \<and> target_network_params a' = target_network_params (ex_agent 12)
           \<and> optimizer_state a' = optimizer_state (ex_agent 12)
           \<and> cycle_grad_steps a' = 7
           \<and> cumulative_resets a' = 2
           \<and> next_reset a' = 15"
    by (simp add: ex_agent_def)
  then show ?thesis using h by blast
qed

text \<open>
  C1 as the claim words it fails twice. With \<open>no_resets_after = 12\<close> the agent below is
  past its reset step and short of budget; the call is skipped, and \<open>cumulative_resets\<close>
  goes from 1 to 2 and \<open>next_reset\<close> from 6 to 15. With \<open>no_resets_after = 14\<close> the
  claim's test \<open>training_steps + reset_every + reset_offset > no_resets_after + reset_offset\<close>
  holds (16 > 15) while the code's test does not (15 > 15), so the reset runs: the head
  is replaced and \<open>cycle_grad_steps\<close> goes from 7 to 0.
\<close>

theorem reset_weights_counters_counterexample:
  "reset_triggered (ex_agent 12)
   \<and> training_steps (ex_agent 12) + reset_every (ex_agent 12) + reset_offset (ex_agent 12)
        > no_resets_after (ex_agent 12) + reset_offset (ex_agent 12)
   \<and> reset_weights ex_ext (ex_agent 12)
        = Inr ((ex_agent 12)\<lparr>cumulative_resets := 2, next_reset := 15\<rparr>)
   \<and> cumulative_resets (ex_agent 12) = 1 \<and> next_reset (ex_agent 12) = 6
   \<and> reset_triggered (ex_agent 14)
   \<and> training_steps (ex_agent 14) + reset_every (ex_agent 14) + reset_offset (ex_agent 14)
        > no_resets_after (ex_agent 14) + reset_offset (ex_agent 14)
   \<and> reset_weights ex_ext (ex_agent 14)
        = Inr ((ex_agent 14)\<lparr>cumulative_resets := 2, next_reset := 15, rng := 2,
            online_params := Dict [(''params'', Dict [(''encoder'', Leaf [5]), (''head'', Leaf [106])])],
            target_network_params := Dict [(''params'', Dict [(''encoder'', Leaf [7]), (''head'', Leaf [107])])],
            optimizer_state := [[(''inner_state'', Tup [Dict [(''params'',
                Dict [(''encoder'', Leaf [5]), (''head'', Leaf [106])])]])]],
            random_params := Dict [(''params'', Dict [(''encoder'', Leaf [6]), (''head'', Leaf [106])])],
            cycle_grad_steps := 0\<rparr>)
   \<and> cycle_grad_steps (ex_agent 14) = 7"
  by (simp add: reset_weights_def reset_triggered_def ex_agent_def ex_ext_def jit_reset_def
      keys_to_copy_def ebind_def Let_def)

subsection \<open>The prefetching generator\<close>

lemma enqueue_eq: "enqueue nxt n (s, q) = (iter_drop nxt n s, q @ iter_take nxt n s)"
  by (induction n arbitrary: s q) (auto split: option.splits)

lemma length_iter_take: "length (iter_take nxt n s) \<le> n"
  by (induction n arbitrary: s) (auto split: option.splits)

lemma iter_take_exhausted: "nxt s = None \<Longrightarrow> iter_take nxt k s = []"
  by (cases k) auto

lemma iter_drop_exhausted: "nxt s = None \<Longrightarrow> iter_drop nxt k s = s"
  by (cases k) auto

lemma iter_take_add:
  "iter_take nxt (n + k) s = iter_take nxt n s @ iter_take nxt k (iter_drop nxt n s)"
proof (induction n arbitrary: s)
  case 0
  show ?case by simp
next
  case (Suc n)
  show ?case
  proof (cases "nxt s")
    case None
    then show ?thesis by (simp add: iter_take_exhausted)
  next
    case (Some p)
    then show ?thesis using Suc.IH by (cases p) simp
  qed
qed

lemma iter_drop_add:
  "iter_drop nxt (n + k) s = iter_drop nxt k (iter_drop nxt n s)"
proof (induction n arbitrary: s)
  case 0
  show ?case by simp
next
  case (Suc n)
  show ?case
  proof (cases "nxt s")
    case None
    then show ?thesis by (simp add: iter_drop_exhausted)
  next
    case (Some p)
    then show ?thesis using Suc.IH by (cases p) simp
  qed
qed

lemma iter_take_Suc_end:
  "iter_take nxt (Suc n) s = iter_take nxt n s @ iter_take nxt 1 (iter_drop nxt n s)"
  using iter_take_add[of nxt n 1 s] by simp

lemma iter_drop_Suc_end:
  "iter_drop nxt (Suc n) s = iter_drop nxt 1 (iter_drop nxt n s)"
  using iter_drop_add[of nxt n 1 s] by simp

lemma filled_suspended:
  "filled nxt (Suc m) (Suspended (iter_drop nxt m t) (iter_take nxt m t))
     = Some (iter_drop nxt (Suc m) t, iter_take nxt (Suc m) t)"
  using iter_take_Suc_end[of nxt m t] iter_drop_Suc_end[of nxt m t]
  by (simp add: enqueue_eq del: iter_take.simps iter_drop.simps)

lemma filled_unstarted:
  "filled nxt n (Unstarted t) = Some (iter_drop nxt n t, iter_take nxt n t)"
  by (simp add: enqueue_eq)

lemma next_from_filled:
  assumes "filled nxt (Suc m) g = Some (iter_drop nxt (Suc m) t, iter_take nxt (Suc m) t)"
  shows "prefetch_next nxt (Suc m) g =
     (case nxt t of None \<Rightarrow> (None, Finished)
      | Some (x, t') \<Rightarrow> (Some x, Suspended (iter_drop nxt m t') (iter_take nxt m t')))"
  using assms by (auto simp: prefetch_next_def split: option.splits)

lemma take_suspended:
  "prefetch_take nxt (Suc m) n (Suspended (iter_drop nxt m t) (iter_take nxt m t)) = iter_take nxt n t"
proof (induction n arbitrary: t)
  case 0
  show ?case by simp
next
  case (Suc n)
  show ?case
    using next_from_filled[OF filled_suspended, of nxt m t] Suc.IH
    by (auto split: option.splits)
qed

lemma take_unstarted:
  "prefetch_take nxt (Suc m) n (Unstarted t) = iter_take nxt n t"
proof (cases n)
  case 0
  then show ?thesis by simp
next
  case (Suc k)
  show ?thesis
    using next_from_filled[OF filled_unstarted, of nxt m t] take_suspended[of nxt m k] Suc
    by (auto split: option.splits)
qed

lemma tracked_next: "tracked nxt m g \<Longrightarrow> tracked nxt m (snd (prefetch_next nxt (Suc m) g))"
  unfolding tracked_def
proof (elim disjE exE)
  assume "g = Finished"
  then show "snd (prefetch_next nxt (Suc m) g) = Finished \<or> (\<exists>t. snd (prefetch_next nxt (Suc m) g) = Unstarted t) \<or> (\<exists>t. snd (prefetch_next nxt (Suc m) g) = Suspended (iter_drop nxt m t) (iter_take nxt m t))"
    by (simp add: prefetch_next_def)
next
  fix t assume "g = Unstarted t"
  then show "snd (prefetch_next nxt (Suc m) g) = Finished \<or> (\<exists>t. snd (prefetch_next nxt (Suc m) g) = Unstarted t) \<or> (\<exists>t. snd (prefetch_next nxt (Suc m) g) = Suspended (iter_drop nxt m t) (iter_take nxt m t))"
    using next_from_filled[OF filled_unstarted, of nxt m t]
    by (auto split: option.splits)
next
  fix t assume "g = Suspended (iter_drop nxt m t) (iter_take nxt m t)"
  then show "snd (prefetch_next nxt (Suc m) g) = Finished \<or> (\<exists>t. snd (prefetch_next nxt (Suc m) g) = Unstarted t) \<or> (\<exists>t. snd (prefetch_next nxt (Suc m) g) = Suspended (iter_drop nxt m t) (iter_take nxt m t))"
    using next_from_filled[OF filled_suspended, of nxt m t]
    by (auto split: option.splits)
qed

lemma tracked_after: "tracked nxt m g \<Longrightarrow> tracked nxt m (prefetch_after nxt (Suc m) n g)"
  by (induction n arbitrary: g) (auto intro: tracked_next)

lemma tracked_queue:
  assumes "tracked nxt m g"
  shows "length (queue_of (filled nxt (Suc m) g)) \<le> Suc m"
proof -
  consider "g = Finished" | t where "g = Unstarted t"
    | t where "g = Suspended (iter_drop nxt m t) (iter_take nxt m t)"
    using assms unfolding tracked_def by blast
  then show ?thesis
  proof cases
    case 1
    then show ?thesis by simp
  next
    case 2
    then show ?thesis
      using length_iter_take[of nxt "Suc m" t] by (simp only: filled_unstarted queue_of.simps)
  next
    case 3
    then show ?thesis
      using length_iter_take[of nxt "Suc m" t] by (simp only: filled_suspended queue_of.simps)
  qed
qed

text \<open>
  C10. For a queue depth \<open>size \<ge> 1\<close> the generator yields the elements of the
  underlying iterator, in order, none dropped or repeated: its first \<open>n\<close> values are
  the iterator's first \<open>n\<close> elements for every \<open>n\<close>, whether the iterator ends or not.
  After any number of calls the queue, at its longest, holds no more than \<open>size\<close>
  elements.
\<close>

theorem prefetch_to_device_sequence:
  assumes "1 \<le> qsize"
  shows "prefetch_take nxt qsize n (Unstarted s) = iter_take nxt n s
       \<and> length (queue_of (filled nxt qsize (prefetch_after nxt qsize n (Unstarted s)))) \<le> qsize"
proof -
  from assms obtain m where m: "qsize = Suc m" by (cases qsize) auto
  have "tracked nxt m (Unstarted s)" by (simp add: tracked_def)
  then have "tracked nxt m (prefetch_after nxt (Suc m) n (Unstarted s))" by (rule tracked_after)
  then show ?thesis using take_unstarted[of nxt m n s] tracked_queue m by blast
qed

theorem prefetch_to_device_sequence_witness:
  "prefetch_take list_iter 2 10 (Unstarted [1::int, 2, 3, 4, 5]) = [1, 2, 3, 4, 5]
   \<and> length (queue_of (filled list_iter 2 (prefetch_after list_iter 2 3 (Unstarted [1::int, 2, 3, 4, 5])))) \<le> 2"
  using prefetch_to_device_sequence[of 2 list_iter 10 "[1::int, 2, 3, 4, 5]"]
    prefetch_to_device_sequence[of 2 list_iter 3 "[1::int, 2, 3, 4, 5]"]
  by (simp add: list_iter_def eval_nat_numeral)

subsection \<open>Action selection\<close>

lemma argmax_all_ok: "[] \<notin> set ls \<Longrightarrow> \<exists>best. argmax_all ls = Inr best \<and> length best = length ls"
proof (induction ls)
  case Nil
  show ?case by simp
next
  case (Cons l ls)
  then obtain best where b: "argmax_all ls = Inr best" "length best = length ls" by auto
  from Cons.prems obtain x xs where "l = x # xs" by (cases l) auto
  then show ?case using b by (simp add: ebind_def)
qed

lemma select_action_eq:
  "select_action ext params state rng0 n flag =
     ebind (argmax_all (policy_logits ext params state rng0)) (\<lambda>best.
       Inr (fst (split ext (snd (split ext rng0))),
            (if flag then map int best else policy_samples ext params state rng0),
            map softmax (policy_logits ext params state rng0)))"
  by (simp add: select_action_def policy_logits_def policy_samples_def Let_def case_prod_unfold comp_def cong: if_cong)

lemma select_action_samples:
  assumes "[] \<notin> set (policy_logits ext params state rng0)"
  shows "\<exists>rng' probs. select_action ext params state rng0 n False = Inr (rng', policy_samples ext params state rng0, probs)
     \<and> length probs = length (policy_logits ext params state rng0)"
proof -
  from argmax_all_ok[OF assms] obtain best where
    "argmax_all (policy_logits ext params state rng0) = Inr best" by blast
  then show ?thesis
    by (simp add: select_action_eq ebind_def)
qed

text \<open>
  C5 (as the code has it). In training mode (\<open>eval_mode\<close> false) with \<open>training_steps\<close>
  below \<open>min_replay_history\<close> the agent returns
  \<^verbatim>\<open>jax.random.randint(key, (batch,), 0, num_actions)\<close>, one integer per observation drawn
  over the action space. In every other case, evaluation mode included, it returns the
  actions that the policy head sampled (for a batch that is not empty and at least one
  action): the agent calls \<^verbatim>\<open>select_action\<close> with the flag fixed to \<open>False\<close>.
\<close>

theorem agent_select_action_cases:
  "(\<not> eval_flag \<and> real_of_int (training_steps a) < min_replay_history a \<longrightarrow>
      agent_select_action ext a state select_params eval_flag
        = Inr (a\<lparr>rng := fst (split ext (rng a))\<rparr>,
               randint ext (snd (split ext (rng a))) (length state) 0 (num_actions a)))
   \<and> (\<not> (\<not> eval_flag \<and> real_of_int (training_steps a) < min_replay_history a)
        \<and> policy_logits ext select_params state (rng a) \<noteq> []
        \<and> [] \<notin> set (policy_logits ext select_params state (rng a)) \<longrightarrow>
      (\<exists>a'. agent_select_action ext a state select_params eval_flag
               = Inr (a', policy_samples ext select_params state (rng a))))"
proof (intro conjI impI)
  assume "\<not> eval_flag \<and> real_of_int (training_steps a) < min_replay_history a"
  then show "agent_select_action ext a state select_params eval_flag
        = Inr (a\<lparr>rng := fst (split ext (rng a))\<rparr>,
               randint ext (snd (split ext (rng a))) (length state) 0 (num_actions a))"
    by (simp add: agent_select_action_def split: prod.splits)
next
  assume h: "\<not> (\<not> eval_flag \<and> real_of_int (training_steps a) < min_replay_history a)
        \<and> policy_logits ext select_params state (rng a) \<noteq> []
        \<and> [] \<notin> set (policy_logits ext select_params state (rng a))"
  then obtain rng' probs where
    sa: "select_action ext select_params state (rng a) (num_actions a) False
          = Inr (rng', policy_samples ext select_params state (rng a), probs)"
    and len: "length probs = length (policy_logits ext select_params state (rng a))"
    using select_action_samples[of ext select_params state "rng a" "num_actions a"] by blast
  from h len obtain p0 ps where "probs = p0 # ps" by (cases probs) auto
  with h sa show "\<exists>a'. agent_select_action ext a state select_params eval_flag
               = Inr (a', policy_samples ext select_params state (rng a))"
    by (cases "eval_mode a") (auto simp: agent_select_action_def ebind_def Let_def)
qed

theorem agent_select_action_cases_witness:
  "agent_select_action ex_ext (ex_agent 12) [1] (target_network_params (ex_agent 12)) False
     = Inr ((ex_agent 12)\<lparr>rng := 2\<rparr>, [1])
   \<and> (\<exists>a'. agent_select_action ex_ext eval_agent [1] (target_network_params eval_agent) True
          = Inr (a', [0]))"
proof -
  have "\<not> False \<and> real_of_int (training_steps (ex_agent 12)) < min_replay_history (ex_agent 12)"
    by (simp add: ex_agent_def)
  with agent_select_action_cases
         [of False "ex_agent 12" ex_ext "[1]" "target_network_params (ex_agent 12)"]
  have "agent_select_action ex_ext (ex_agent 12) [1] (target_network_params (ex_agent 12)) False
        = Inr ((ex_agent 12)\<lparr>rng := fst (split ex_ext (rng (ex_agent 12)))\<rparr>,
               randint ex_ext (snd (split ex_ext (rng (ex_agent 12)))) (length [1::real]) 0
                 (num_actions (ex_agent 12)))"
    by blast
  then have first: "agent_select_action ex_ext (ex_agent 12) [1]
        (target_network_params (ex_agent 12)) False = Inr ((ex_agent 12)\<lparr>rng := 2\<rparr>, [1])"
    by (simp add: ex_agent_def ex_ext_def)
  have logits: "policy_logits ex_ext (target_network_params eval_agent) [1] (rng eval_agent)
        = [[0, 1]]"
    by (simp add: policy_logits_def ex_ext_def)
  have samples: "policy_samples ex_ext (target_network_params eval_agent) [1] (rng eval_agent)
        = [0]"
    by (simp add: policy_samples_def ex_ext_def)
  have "\<not> (\<not> True \<and> real_of_int (training_steps eval_agent) < min_replay_history eval_agent)
        \<and> policy_logits ex_ext (target_network_params eval_agent) [1] (rng eval_agent) \<noteq> []
        \<and> [] \<notin> set (policy_logits ex_ext (target_network_params eval_agent) [1] (rng eval_agent))"
    by (simp add: logits)
  with agent_select_action_cases
         [of True eval_agent ex_ext "[1]" "target_network_params eval_agent"]
  have "\<exists>a'. agent_select_action ex_ext eval_agent [1] (target_network_params eval_agent) True
          = Inr (a', policy_samples ex_ext (target_network_params eval_agent) [1] (rng eval_agent))"
    by blast
  then show ?thesis using first by (simp add: samples)
qed

text \<open>
  C5 as the claim words it fails in evaluation mode: the policy head of the agent below
  gives the logits \<open>[0, 1]\<close>, whose arg-max is action 1, and samples action 0; the agent,
  with \<open>eval_mode\<close> set both in the agent and in the call, returns the sample 0.
\<close>

theorem agent_select_action_eval_counterexample:
  "eval_mode eval_agent
   \<and> agent_select_action ex_ext eval_agent [1] (target_network_params eval_agent) True
       = Inr (eval_agent\<lparr>rng := 6\<rparr>, [0])
   \<and> argmax_all (policy_logits ex_ext (target_network_params eval_agent) [1] (rng eval_agent))
       = Inr [1]"
  by (simp add: agent_select_action_def select_action_def policy_logits_def eval_agent_def
      ex_agent_def ex_ext_def ebind_def Let_def)

subsection \<open>Interpolation of weights\<close>

lemma map2_first: "length a = length b \<Longrightarrow> map2 (\<lambda>x y. x) a b = a"
  by (induction a b rule: list_induct2) auto

lemma map2_second: "length a = length b \<Longrightarrow> map2 (\<lambda>x y. y) a b = b"
  by (induction a b rule: list_induct2) auto

lemma combination_keep: "length a = length b \<Longrightarrow> combination 1 0 a b = Inr a"
  by (simp add: combination_def map2_first)

lemma combination_replace: "length a = length b \<Longrightarrow> combination 0 1 a b = Inr b"
  by (simp add: combination_def map2_second)

lemma tree_map2_keep:
  "tree_all2 (\<lambda>x y. length x = length y) a b \<Longrightarrow> tree_map2 (combination 1 0) a b = Inr a"
  "items_all2 (\<lambda>x y. length x = length y) d d' \<Longrightarrow> tree_map2_items (combination 1 0) d d' = Inr d"
  "trees_all2 (\<lambda>x y. length x = length y) ts ts' \<Longrightarrow> tree_map2_list (combination 1 0) ts ts' = Inr ts"
proof (induction "combination 1 0" a b and "combination 1 0" d d' and "combination 1 0" ts ts'
       rule: tree_map2_tree_map2_items_tree_map2_list.induct)
  case (1 a b)
  then show ?case by (simp add: combination_keep)
next
  case (11 k v rest d')
  then show ?case by (auto split: option.splits)
qed auto

lemma tree_map2_replace:
  "tree_all2 (\<lambda>x y. length x = length y) a b \<Longrightarrow>
     \<exists>r. tree_map2 (combination 0 1) a b = Inr r \<and> tree_all2 (=) r b"
  "items_all2 (\<lambda>x y. length x = length y) d d' \<Longrightarrow>
     \<exists>r. tree_map2_items (combination 0 1) d d' = Inr r \<and> map fst r = map fst d \<and> items_all2 (=) r d'"
  "trees_all2 (\<lambda>x y. length x = length y) ts ts' \<Longrightarrow>
     \<exists>r. tree_map2_list (combination 0 1) ts ts' = Inr r \<and> trees_all2 (=) r ts'"
proof (induction "combination 0 1" a b and "combination 0 1" d d' and "combination 0 1" ts ts'
       rule: tree_map2_tree_map2_items_tree_map2_list.induct)
  case (1 a b)
  then show ?case by (simp add: combination_replace)
next
  case (2 d d')
  then show ?case by auto
next
  case (11 k v rest d')
  from "11.prems" obtain v' where v': "map_of d' k = Some v'"
    and sv: "tree_all2 (\<lambda>x y. length x = length y) v v'"
    and sr: "items_all2 (\<lambda>x y. length x = length y) rest d'"
    by (auto split: option.splits)
  from "11.hyps"(1)[OF v' sv] obtain r where r: "tree_map2 (combination 0 1) v v' = Inr r"
    and er: "tree_all2 (=) r v'" by blast
  from "11.hyps"(2)[OF v' r sr] obtain rs where
    rs: "tree_map2_items (combination 0 1) rest d' = Inr rs"
    and ks: "map fst rs = map fst rest" and ers: "items_all2 (=) rs d'" by blast
  show ?case using v' r er rs ks ers by simp
qed auto

lemma items_all2_lookup:
  "items_all2 P d d' \<Longrightarrow> (k, v) \<in> set d \<Longrightarrow> \<exists>v'. map_of d' k = Some v' \<and> tree_all2 P v v'"
  by (induction d) (auto split: option.splits)

lemma dict_all2_lookup:
  assumes "tree_all2 P (Dict d) (Dict d')" and "map_of d k = Some v"
  shows "\<exists>v'. map_of d' k = Some v' \<and> tree_all2 P v v'"
  using assms items_all2_lookup[of P d d' k v] by (auto dest: map_of_SomeD)

lemma keep_other_keys_lookup:
  "k \<in> set ks \<Longrightarrow> map_of (keep_other_keys items ks acc) k = map_of acc k"
  by (induction items ks acc rule: keep_other_keys.induct) (auto simp: update_conv')

lemma combine_keys_lookup:
  assumes "combine_keys ow nw old new ks acc = Inr res"
  shows "(k \<in> set ks \<longrightarrow> (\<exists>p q r. subscript old k = Inr p \<and> subscript new k = Inr q
            \<and> tree_map2 (combination ow nw) p q = Inr r \<and> map_of res k = Some r))
       \<and> (k \<notin> set ks \<longrightarrow> map_of res k = map_of acc k)"
  using assms
proof (induction ks arbitrary: acc)
  case Nil
  then show ?case by simp
next
  case (Cons k0 ks)
  from Cons.prems obtain p q r where p: "subscript old k0 = Inr p" and q: "subscript new k0 = Inr q"
    and r: "tree_map2 (combination ow nw) p q = Inr r"
    and rest: "combine_keys ow nw old new ks (AList.update k0 r acc) = Inr res"
    by (auto simp: ebind_def split: sum.splits)
  from Cons.IH[OF rest] have ih:
    "(k \<in> set ks \<longrightarrow> (\<exists>p q r. subscript old k = Inr p \<and> subscript new k = Inr q
            \<and> tree_map2 (combination ow nw) p q = Inr r \<and> map_of res k = Some r))
       \<and> (k \<notin> set ks \<longrightarrow> map_of res k = map_of (AList.update k0 r acc) k)" .
  show ?case
  proof (cases "k \<in> set ks")
    case True
    with ih show ?thesis by simp
  next
    case False
    with ih have "map_of res k = map_of (AList.update k0 r acc) k" by simp
    then show ?thesis using False p q r by (auto simp: update_conv')
  qed
qed

lemma combine_keys_success:
  assumes "\<forall>k\<in>set ks. \<exists>p q r. subscript old k = Inr p \<and> subscript new k = Inr q
             \<and> tree_map2 (combination ow nw) p q = Inr r"
  shows "\<exists>res. combine_keys ow nw old new ks acc = Inr res"
  using assms
proof (induction ks arbitrary: acc)
  case Nil
  show ?case by simp
next
  case (Cons k0 ks)
  from Cons.prems obtain p q r where "subscript old k0 = Inr p" "subscript new k0 = Inr q"
    "tree_map2 (combination ow nw) p q = Inr r" by auto
  moreover from Cons.prems Cons.IH[of "AList.update k0 r acc"]
  obtain res where "combine_keys ow nw old new ks (AList.update k0 r acc) = Inr res" by auto
  ultimately show ?case by (simp add: ebind_def)
qed

lemma subscript_Dict: "subscript (Dict d) k = Inr v \<longleftrightarrow> map_of d k = Some v"
  by (simp split: option.splits)

lemma interpolate_core_keep:
  assumes "tree_all2 (\<lambda>x y. length x = length y) (Dict d) (Dict d')" and "set ks \<subseteq> fst ` set d"
  shows "\<exists>c. combine_keys 1 0 (Dict d) (Dict d') ks [] = Inr c
            \<and> (\<forall>k\<in>set ks. map_of (keep_other_keys d ks c) k = map_of d k)"
proof -
  have each: "\<exists>p q. map_of d k = Some p \<and> map_of d' k = Some q
                \<and> tree_map2 (combination 1 0) p q = Inr p" if "k \<in> set ks" for k
  proof -
    from that assms(2) obtain p where p: "map_of d k = Some p"
      by (metis subsetD weak_map_of_SomeI map_of_eq_None_iff not_Some_eq)
    from dict_all2_lookup[OF assms(1) p] obtain q where "map_of d' k = Some q"
      "tree_all2 (\<lambda>x y. length x = length y) p q" by blast
    with p show ?thesis using tree_map2_keep(1) by blast
  qed
  then have "\<forall>k\<in>set ks. \<exists>p q r. subscript (Dict d) k = Inr p \<and> subscript (Dict d') k = Inr q
             \<and> tree_map2 (combination 1 0) p q = Inr r"
    by (metis subscript_Dict)
  from combine_keys_success[OF this] obtain c where
    c: "combine_keys 1 0 (Dict d) (Dict d') ks [] = Inr c" by blast
  have "map_of (keep_other_keys d ks c) k = map_of d k" if k: "k \<in> set ks" for k
  proof -
    from combine_keys_lookup[OF c, of k] k obtain p q r where
      "subscript (Dict d) k = Inr p" "subscript (Dict d') k = Inr q"
      "tree_map2 (combination 1 0) p q = Inr r" "map_of c k = Some r" by blast
    moreover from each[OF k] obtain p' q' where "map_of d k = Some p'" "map_of d' k = Some q'"
      "tree_map2 (combination 1 0) p' q' = Inr p'" by blast
    ultimately have "map_of c k = map_of d k" by (simp add: subscript_Dict)
    then show ?thesis using keep_other_keys_lookup[OF k] by simp
  qed
  with c show ?thesis by blast
qed

lemma interpolate_core_replace:
  assumes "tree_all2 (\<lambda>x y. length x = length y) (Dict d) (Dict d')" and "set ks \<subseteq> fst ` set d"
  shows "\<exists>c. combine_keys 0 1 (Dict d) (Dict d') ks [] = Inr c
            \<and> (\<forall>k\<in>set ks. \<exists>v v'. map_of (keep_other_keys d ks c) k = Some v
                   \<and> map_of d' k = Some v' \<and> tree_all2 (=) v v')"
proof -
  have each: "\<exists>p q r. map_of d k = Some p \<and> map_of d' k = Some q
                \<and> tree_map2 (combination 0 1) p q = Inr r \<and> tree_all2 (=) r q" if "k \<in> set ks" for k
  proof -
    from that assms(2) obtain p where p: "map_of d k = Some p"
      by (metis subsetD weak_map_of_SomeI map_of_eq_None_iff not_Some_eq)
    from dict_all2_lookup[OF assms(1) p] obtain q where "map_of d' k = Some q"
      "tree_all2 (\<lambda>x y. length x = length y) p q" by blast
    with p show ?thesis using tree_map2_replace(1) by blast
  qed
  then have "\<forall>k\<in>set ks. \<exists>p q r. subscript (Dict d) k = Inr p \<and> subscript (Dict d') k = Inr q
             \<and> tree_map2 (combination 0 1) p q = Inr r"
    by (metis subscript_Dict)
  from combine_keys_success[OF this] obtain c where
    c: "combine_keys 0 1 (Dict d) (Dict d') ks [] = Inr c" by blast
  have "\<exists>v v'. map_of (keep_other_keys d ks c) k = Some v
                   \<and> map_of d' k = Some v' \<and> tree_all2 (=) v v'" if k: "k \<in> set ks" for k
  proof -
    from combine_keys_lookup[OF c, of k] k obtain p q r where
      "subscript (Dict d) k = Inr p" "subscript (Dict d') k = Inr q"
      "tree_map2 (combination 0 1) p q = Inr r" "map_of c k = Some r" by blast
    moreover from each[OF k] obtain p' q' r' where "map_of d k = Some p'" "map_of d' k = Some q'"
      "tree_map2 (combination 0 1) p' q' = Inr r'" "tree_all2 (=) r' q'" by blast
    ultimately have "map_of c k = Some r' \<and> map_of d' k = Some q' \<and> tree_all2 (=) r' q'"
      by (simp add: subscript_Dict)
    then show ?thesis using keep_other_keys_lookup[OF k] by simp
  qed
  with c show ?thesis by blast
qed

lemma dict_items_Inr: "dict_items p = Inr d \<longleftrightarrow> p = Dict d"
  by (cases p) auto

lemma tree_all2_Dict_left:
  "tree_all2 P (Dict d) b \<Longrightarrow> \<exists>d'. b = Dict d'"
  by (cases b) auto

lemma groups_related:
  assumes "same_structure old new" and "param_groups strip old = Inr d"
  shows "\<exists>d'. tree_all2 (\<lambda>x y. length x = length y) (Dict d) (Dict d')
           \<and> (if strip then subscript old ''params'' = Inr (Dict d)
                          \<and> subscript new ''params'' = Inr (Dict d')
               else old = Dict d \<and> new = Dict d')"
proof (cases strip)
  case False
  with assms(2) have o: "old = Dict d" by (simp add: param_groups_def ebind_def dict_items_Inr)
  with assms(1) obtain d' where "new = Dict d'"
    unfolding same_structure_def using tree_all2_Dict_left by blast
  with o assms(1) False show ?thesis by (auto simp: same_structure_def)
next
  case True
  with assms(2) obtain p where p: "subscript old ''params'' = Inr p" and "dict_items p = Inr d"
    by (auto simp: param_groups_def ebind_def split: sum.splits)
  then have pd: "p = Dict d" by (simp add: dict_items_Inr)
  from p obtain top where o: "old = Dict top" by (cases old) auto
  with assms(1) obtain top' where n: "new = Dict top'"
    unfolding same_structure_def using tree_all2_Dict_left by blast
  from p o pd have "map_of top ''params'' = Some (Dict d)" by (simp split: option.splits)
  from dict_all2_lookup[OF assms(1)[unfolded same_structure_def o n] this]
  obtain q where q: "map_of top' ''params'' = Some q"
    and sq: "tree_all2 (\<lambda>x y. length x = length y) (Dict d) q" by blast
  from sq obtain d' where "q = Dict d'" using tree_all2_Dict_left by blast
  with q sq p pd n True show ?thesis by (auto simp: subscript_Dict)
qed

lemma interpolate_weights_unfold:
  assumes "if strip then subscript old ''params'' = Inr (Dict d) \<and> subscript new ''params'' = Inr (Dict d')
           else old = Dict d \<and> new = Dict d'"
      and "combine_keys ow nw (Dict d) (Dict d') (interpolated keys d) [] = Inr c"
  shows "\<exists>r. interpolate_weights old new keys ow nw strip = Inr r
           \<and> param_groups strip r = Inr (keep_other_keys d (interpolated keys d) c)"
  using assms
  by (cases strip; cases keys)
     (auto simp: interpolate_weights_def interpolated_def param_groups_def ebind_def Let_def)

text \<open>
  C7. Let \<open>old_params\<close> and \<open>new_params\<close> be structurally identical, and let the
  interpolated names be groups of \<open>old_params\<close>. Then \<^verbatim>\<open>interpolate_weights\<close> with
  \<open>old_weight = 1\<close> and \<open>new_weight = 0\<close> returns, and every interpolated group of the
  result is the group of \<open>old_params\<close>; with \<open>old_weight = 0\<close> and \<open>new_weight = 1\<close> it
  returns, and every interpolated group of the result equals the group of
  \<open>new_params\<close>.
\<close>

theorem interpolate_weights_identity_and_replace:
  assumes "same_structure old_params new_params"
      and "param_groups strip old_params = Inr d"
      and "set (interpolated keys d) \<subseteq> fst ` set d"
  shows "(\<exists>r g. interpolate_weights old_params new_params keys 1 0 strip = Inr r
             \<and> param_groups strip r = Inr g
             \<and> (\<forall>k\<in>set (interpolated keys d). map_of g k = map_of d k))
       \<and> (\<exists>r g d'. interpolate_weights old_params new_params keys 0 1 strip = Inr r
             \<and> param_groups strip r = Inr g
             \<and> param_groups strip new_params = Inr d'
             \<and> (\<forall>k\<in>set (interpolated keys d).
                   \<exists>v v'. map_of g k = Some v \<and> map_of d' k = Some v' \<and> tree_eq v v'))"
proof -
  from groups_related[OF assms(1,2)] obtain d' where
    rel: "tree_all2 (\<lambda>x y. length x = length y) (Dict d) (Dict d')"
    and shape: "if strip then subscript old_params ''params'' = Inr (Dict d)
                          \<and> subscript new_params ''params'' = Inr (Dict d')
               else old_params = Dict d \<and> new_params = Dict d'" by blast
  have new_groups: "param_groups strip new_params = Inr d'"
    using shape by (cases strip) (auto simp: param_groups_def ebind_def)
  from interpolate_core_keep[OF rel assms(3)] obtain c where
    c: "combine_keys 1 0 (Dict d) (Dict d') (interpolated keys d) [] = Inr c"
    and ck: "\<forall>k\<in>set (interpolated keys d).
               map_of (keep_other_keys d (interpolated keys d) c) k = map_of d k" by blast
  from interpolate_weights_unfold[OF shape c] ck
  have first: "\<exists>r g. interpolate_weights old_params new_params keys 1 0 strip = Inr r
             \<and> param_groups strip r = Inr g
             \<and> (\<forall>k\<in>set (interpolated keys d). map_of g k = map_of d k)" by blast
  from interpolate_core_replace[OF rel assms(3)] obtain c' where
    c': "combine_keys 0 1 (Dict d) (Dict d') (interpolated keys d) [] = Inr c'"
    and ck': "\<forall>k\<in>set (interpolated keys d). \<exists>v v'.
               map_of (keep_other_keys d (interpolated keys d) c') k = Some v
               \<and> map_of d' k = Some v' \<and> tree_all2 (=) v v'" by blast
  from interpolate_weights_unfold[OF shape c'] ck' new_groups
  have second: "\<exists>r g d'. interpolate_weights old_params new_params keys 0 1 strip = Inr r
             \<and> param_groups strip r = Inr g
             \<and> param_groups strip new_params = Inr d'
             \<and> (\<forall>k\<in>set (interpolated keys d).
                   \<exists>v v'. map_of g k = Some v \<and> map_of d' k = Some v' \<and> tree_eq v v')"
    unfolding tree_eq_def by blast
  from first second show ?thesis by blast
qed

theorem interpolate_weights_identity_and_replace_witness:
  "(\<exists>r g. interpolate_weights (online_params (ex_agent 12)) (network_init ex_ext 3)
              (Some [''head'']) 1 0 True = Inr r
          \<and> param_groups True r = Inr g \<and> map_of g ''head'' = Some (Leaf [6]))
   \<and> (\<exists>r g v. interpolate_weights (online_params (ex_agent 12)) (network_init ex_ext 3)
              (Some [''head'']) 0 1 True = Inr r
          \<and> param_groups True r = Inr g \<and> map_of g ''head'' = Some v
          \<and> tree_eq v (Leaf [103]))"
proof -
  let ?d = "[(''encoder'', Leaf [5]), (''head'', Leaf [6])]"
  have h1: "same_structure (online_params (ex_agent 12)) (network_init ex_ext 3)"
    by (simp add: same_structure_def ex_agent_def ex_ext_def)
  have h2: "param_groups True (online_params (ex_agent 12)) = Inr ?d"
    by (simp add: param_groups_def ex_agent_def ebind_def)
  have h3: "set (interpolated (Some [''head'']) ?d) \<subseteq> fst ` set ?d"
    by (simp add: interpolated_def)
  have g: "param_groups True (network_init ex_ext 3)
             = Inr [(''encoder'', Leaf [3]), (''head'', Leaf [103])]"
    by (simp add: param_groups_def ex_ext_def ebind_def)
  from interpolate_weights_identity_and_replace [OF h1 h2 h3]
  show ?thesis by (simp add: interpolated_def g)
qed

subsection \<open>The parameters after a reset\<close>

lemma update_fresh_key: "k \<notin> fst ` set al \<Longrightarrow> AList.update k v al = al @ [(k, v)]"
  by (induction al) auto

lemma copy_items_lookup:
  assumes "copy_items src w keys fresh = Inr res" and "distinct (map fst src)"
  shows "(\<forall>v. (k, v) \<in> set src \<longrightarrow>
            (if k \<in> set keys then map_of res k = Some v
             else (\<exists>wk r. subscript w k = Inr wk \<and> copy_params v wk keys = Inr r
                      \<and> map_of res k = Some r)))
       \<and> (k \<notin> fst ` set src \<longrightarrow> map_of res k = map_of fresh k)"
  using assms
proof (induction src arbitrary: fresh)
  case Nil
  then show ?case by simp
next
  case (Cons a src)
  obtain k0 v0 where a: "a = (k0, v0)" by (cases a)
  from Cons.prems(2) a have d: "distinct (map fst src)" and nk: "k0 \<notin> fst ` set src" by auto
  show ?case
  proof (cases "k0 \<in> set keys")
    case True
    with Cons.prems(1) a have rest: "copy_items src w keys (AList.update k0 v0 fresh) = Inr res"
      by simp
    from Cons.IH[OF rest d] have ih:
      "(\<forall>v. (k, v) \<in> set src \<longrightarrow>
            (if k \<in> set keys then map_of res k = Some v
             else (\<exists>wk r. subscript w k = Inr wk \<and> copy_params v wk keys = Inr r
                      \<and> map_of res k = Some r)))
       \<and> (k \<notin> fst ` set src \<longrightarrow> map_of res k = map_of (AList.update k0 v0 fresh) k)" .
    show ?thesis
    proof (cases "k = k0")
      case keq: True
      with ih nk have "map_of res k = Some v0" by (simp add: update_conv')
      with keq True nk a show ?thesis by (auto simp: rev_image_eqI)
    next
      case False
      then have e1: "map_of (AList.update k0 v0 fresh) k = map_of fresh k"
        by (simp add: update_conv')
      from False a have e2: "\<And>v. (k, v) \<in> set (a # src) \<longleftrightarrow> (k, v) \<in> set src" by auto
      from False a have e3: "k \<notin> fst ` set (a # src) \<longleftrightarrow> k \<notin> fst ` set src" by auto
      show ?thesis using ih unfolding e1 e2 e3 .
    qed
  next
    case False
    with Cons.prems(1) a obtain wk r where wk: "subscript w k0 = Inr wk"
      and r: "copy_params v0 wk keys = Inr r"
      and rest: "copy_items src w keys (AList.update k0 r fresh) = Inr res"
      by (auto split: sum.splits)
    from Cons.IH[OF rest d] have ih:
      "(\<forall>v. (k, v) \<in> set src \<longrightarrow>
            (if k \<in> set keys then map_of res k = Some v
             else (\<exists>wk r. subscript w k = Inr wk \<and> copy_params v wk keys = Inr r
                      \<and> map_of res k = Some r)))
       \<and> (k \<notin> fst ` set src \<longrightarrow> map_of res k = map_of (AList.update k0 r fresh) k)" .
    show ?thesis
    proof (cases "k = k0")
      case keq: True
      with ih nk have "map_of res k = Some r" by (simp add: update_conv')
      with keq False nk a wk r show ?thesis by (auto simp: rev_image_eqI)
    next
      case kne: False
      then have e1: "map_of (AList.update k0 r fresh) k = map_of fresh k"
        by (simp add: update_conv')
      from kne a have e2: "\<And>v. (k, v) \<in> set (a # src) \<longleftrightarrow> (k, v) \<in> set src" by auto
      from kne a have e3: "k \<notin> fst ` set (a # src) \<longleftrightarrow> k \<notin> fst ` set src" by auto
      show ?thesis using ih unfolding e1 e2 e3 .
    qed
  qed
qed

lemma copy_items_keys:
  "copy_items src w keys fresh = Inr res \<Longrightarrow>
     fst ` set res = fst ` set fresh \<union> fst ` set src
     \<and> (distinct (map fst fresh) \<longrightarrow> distinct (map fst res))"
proof (induction src arbitrary: fresh)
  case Nil
  then show ?case by simp
next
  case (Cons a src)
  obtain k0 v0 where a: "a = (k0, v0)" by (cases a)
  from Cons.prems a obtain r where rest: "copy_items src w keys (AList.update k0 r fresh) = Inr res"
    by (auto split: sum.splits if_splits)
  from Cons.IH[OF rest] a show ?case
    by (auto simp: dom_update distinct_update)
qed

lemma copy_items_success:
  assumes "\<forall>p\<in>set src. fst p \<in> set keys
             \<or> (\<exists>wk r. subscript w (fst p) = Inr wk \<and> copy_params (snd p) wk keys = Inr r)"
  shows "\<exists>res. copy_items src w keys fresh = Inr res"
  using assms
proof (induction src arbitrary: fresh)
  case Nil
  show ?case by simp
next
  case (Cons a src)
  obtain k0 v0 where a: "a = (k0, v0)" by (cases a)
  show ?case
  proof (cases "k0 \<in> set keys")
    case True
    with Cons.IH[of "AList.update k0 v0 fresh"] Cons.prems a show ?thesis by auto
  next
    case False
    with Cons.prems a obtain wk r where "subscript w k0 = Inr wk" "copy_params v0 wk keys = Inr r"
      by auto
    with Cons.IH[of "AList.update k0 r fresh"] Cons.prems a False show ?thesis by auto
  qed
qed

lemma items_all2_from_lookup:
  "(\<forall>p\<in>set res. \<exists>w. map_of d' (fst p) = Some w \<and> tree_all2 P (snd p) w) \<Longrightarrow> items_all2 P res d'"
  by (induction res) auto

lemma trees_all2_refl: "(\<forall>t\<in>set ts. tree_all2 P t t) \<Longrightarrow> trees_all2 P ts ts"
  by (induction ts) auto

lemma tree_eq_refl: "wf_tree t \<Longrightarrow> tree_all2 (=) t t"
proof (induction t)
  case (Leaf a)
  show ?case by simp
next
  case (Dict d)
  have "\<forall>p\<in>set d. \<exists>w. map_of d (fst p) = Some w \<and> tree_all2 (=) (snd p) w"
  proof
    fix p assume p: "p \<in> set d"
    with Dict.prems have "map_of d (fst p) = Some (snd p)" by (cases p) auto
    moreover from p Dict.prems have "wf_tree (snd p)" by auto
    with Dict.IH[of p "snd p"] p have "tree_all2 (=) (snd p) (snd p)" by (cases p) auto
    ultimately show "\<exists>w. map_of d (fst p) = Some w \<and> tree_all2 (=) (snd p) w" by blast
  qed
  then show ?case by (simp add: items_all2_from_lookup)
next
  case (Tup ts)
  then show ?case by (simp add: trees_all2_refl)
qed

lemma copy_params_fresh:
  assumes "no_key_inside keys v" and "wf_tree v" and "wf_tree w"
      and "tree_all2 (\<lambda>x y. length x = length y) v w"
  shows "\<exists>r. copy_params v w keys = Inr r \<and> tree_all2 (=) r w"
  using assms
proof (induction v arbitrary: w)
  case (Leaf a)
  from Leaf.prems(3) have "tree_all2 (=) w w" by (rule tree_eq_refl)
  then show ?case by simp
next
  case (Tup ts)
  from Tup.prems(3) have "tree_all2 (=) w w" by (rule tree_eq_refl)
  then show ?case by simp
next
  case (Dict src)
  from Dict.prems(4) obtain d' where w: "w = Dict d'" using tree_all2_Dict_left by blast
  from Dict.prems(4) w have keys_eq: "set (map fst src) = set (map fst d')"
    and rel: "items_all2 (\<lambda>x y. length x = length y) src d'" by auto
  have step: "\<exists>wk r. map_of d' k = Some wk \<and> copy_params v wk keys = Inr r \<and> tree_all2 (=) r wk"
    if kv: "(k, v) \<in> set src" for k v
  proof -
    from items_all2_lookup[OF rel kv] obtain wk where wk: "map_of d' k = Some wk"
      and sv: "tree_all2 (\<lambda>x y. length x = length y) v wk" by blast
    from wk have "(k, wk) \<in> set d'" by (rule map_of_SomeD)
    with Dict.prems(3) w have wfw: "wf_tree wk" by auto
    from kv Dict.prems(1,2) have "no_key_inside keys v" "wf_tree v" by auto
    have "v \<in> Basic_BNFs.snds (k, v)" by simp
    from Dict.IH[OF kv this \<open>no_key_inside keys v\<close> \<open>wf_tree v\<close> wfw sv] wk
    show ?thesis by blast
  qed
  have "\<forall>p\<in>set src. fst p \<in> set keys
          \<or> (\<exists>wk r. subscript w (fst p) = Inr wk \<and> copy_params (snd p) wk keys = Inr r)"
  proof
    fix p assume "p \<in> set src"
    then have "(fst p, snd p) \<in> set src" by simp
    from step[OF this] obtain wk r where "map_of d' (fst p) = Some wk"
      "copy_params (snd p) wk keys = Inr r" by blast
    with w have "subscript w (fst p) = Inr wk \<and> copy_params (snd p) wk keys = Inr r" by simp
    then show "fst p \<in> set keys
          \<or> (\<exists>wk r. subscript w (fst p) = Inr wk \<and> copy_params (snd p) wk keys = Inr r)"
      by blast
  qed
  from copy_items_success[OF this] obtain res where res: "copy_items src w keys [] = Inr res"
    by blast
  from Dict.prems(2) have dsrc: "distinct (map fst src)" by simp
  from copy_items_keys[OF res] have rkeys: "fst ` set res = fst ` set src"
    and dres: "distinct (map fst res)" by auto
  have "\<forall>p\<in>set res. \<exists>wk. map_of d' (fst p) = Some wk \<and> tree_all2 (=) (snd p) wk"
  proof
    fix p assume p: "p \<in> set res"
    then have "fst p \<in> fst ` set res" by (rule imageI)
    then have "fst p \<in> fst ` set src" unfolding rkeys .
    then obtain q where "q \<in> set src" "fst p = fst q" by (rule imageE)
    then have kv: "(fst p, snd q) \<in> set src" by simp
    define v where "v = snd q"
    note kv = kv[folded v_def]
    with Dict.prems(1) have nk: "fst p \<notin> set keys" by auto
    from copy_items_lookup[OF res dsrc, of "fst p", THEN conjunct1, rule_format, OF kv] nk
    have "\<exists>wk r. subscript w (fst p) = Inr wk \<and> copy_params v wk keys = Inr r
                      \<and> map_of res (fst p) = Some r" by simp
    then obtain wk r where
      a1: "subscript w (fst p) = Inr wk" and a2: "copy_params v wk keys = Inr r"
      and a3: "map_of res (fst p) = Some r"
      by blast
    from p dres have a4: "map_of res (fst p) = Some (snd p)" by (cases p) auto
    from step[OF kv] obtain wk' r' where b1: "map_of d' (fst p) = Some wk'"
      and b2: "copy_params v wk' keys = Inr r'" and b3: "tree_all2 (=) r' wk'" by blast
    from a1 w b1 have "wk = wk'" by simp
    with a2 b2 have "r = r'" by simp
    with a3 a4 have "snd p = r'" by simp
    with b1 b3 show "\<exists>wk. map_of d' (fst p) = Some wk \<and> tree_all2 (=) (snd p) wk" by blast
  qed
  then have "items_all2 (=) res d'" by (rule items_all2_from_lookup)
  with res rkeys keys_eq w show ?case by simp
qed

lemma tree_map2_wf:
  "tree_map2 f a b = Inr r \<Longrightarrow> wf_tree a \<Longrightarrow> wf_tree r"
  "tree_map2_items f d d' = Inr rs \<Longrightarrow> \<forall>p\<in>set d. wf_tree (snd p) \<Longrightarrow>
     map fst rs = map fst d \<and> (\<forall>p\<in>set rs. wf_tree (snd p))"
  "tree_map2_list f ts ts' = Inr rl \<Longrightarrow> \<forall>t\<in>set ts. wf_tree t \<Longrightarrow> \<forall>t\<in>set rl. wf_tree t"
proof (induction f a b and f d d' and f ts ts' arbitrary: r and rs and rl
       rule: tree_map2_tree_map2_items_tree_map2_list.induct)
  case (1 f a b)
  then show ?case by (auto split: sum.splits)
next
  case (2 f d d')
  from "2.prems"(1) obtain rs where rs: "tree_map2_items f d d' = Inr rs" and r: "r = Dict rs"
    and ks: "set (map fst d) = set (map fst d')"
    by (auto split: sum.splits if_splits)
  from "2.prems"(2) have "\<forall>p\<in>set d. wf_tree (snd p)" and dd: "distinct (map fst d)" by auto
  from "2.IH"[OF ks rs this(1)] dd r show ?case by simp
next
  case (3 f ts ts')
  from "3.prems"(1) obtain rl where rl: "tree_map2_list f ts ts' = Inr rl" and r: "r = Tup rl"
    by (auto split: sum.splits)
  from "3.prems"(2) have "\<forall>t\<in>set ts. wf_tree t" by simp
  from "3.IH"[OF rl this] r show ?case by simp
next
  case (11 f k v rest d')
  from "11.prems"(1) obtain v' r0 rs0 where v': "map_of d' k = Some v'"
    and r0: "tree_map2 f v v' = Inr r0" and rs0: "tree_map2_items f rest d' = Inr rs0"
    and rs: "rs = (k, r0) # rs0"
    by (auto split: option.splits sum.splits)
  from "11.prems"(2) have wv: "wf_tree v" and wr: "\<forall>p\<in>set rest. wf_tree (snd p)" by auto
  from "11.IH"(1)[OF v' r0 wv] "11.IH"(2)[OF v' r0 rs0 wr] rs show ?case by simp
next
  case (13 f t ts t' ts')
  from "13.prems"(1) obtain r0 rl0 where r0: "tree_map2 f t t' = Inr r0"
    and rl0: "tree_map2_list f ts ts' = Inr rl0" and rl: "rl = r0 # rl0"
    by (auto split: sum.splits)
  from "13.prems"(2) have wt: "wf_tree t" and wts: "\<forall>t\<in>set ts. wf_tree t" by auto
  from "13.IH"(1)[OF r0 wt] "13.IH"(2)[OF r0 rl0 wts] rl show ?case by simp
qed auto

lemma set_update_cases: "p \<in> set (AList.update k v al) \<Longrightarrow> p = (k, v) \<or> p \<in> set al"
  by (induction al) (auto split: if_splits)

lemma wf_items_update:
  assumes "wf_items al" and "wf_tree v"
  shows "wf_items (AList.update k v al)"
proof -
  have "wf_tree (snd p)" if "p \<in> set (AList.update k v al)" for p
  proof -
    from set_update_cases[OF that] have "p = (k, v) \<or> p \<in> set al" .
    then show ?thesis using assms by (auto simp: wf_items_def)
  qed
  moreover from assms(1) have "distinct (map fst (AList.update k v al))"
    by (simp add: wf_items_def distinct_update)
  ultimately show ?thesis by (simp add: wf_items_def)
qed

lemma wf_tree_subscript: "wf_tree t \<Longrightarrow> subscript t k = Inr v \<Longrightarrow> wf_tree v"
  by (cases t) (auto split: option.splits dest: map_of_SomeD)

lemma combine_keys_wf:
  "combine_keys ow nw old new ks acc = Inr res \<Longrightarrow> wf_tree old \<Longrightarrow> wf_items acc \<Longrightarrow> wf_items res"
proof (induction ks arbitrary: acc)
  case Nil
  then show ?case by simp
next
  case (Cons k0 ks)
  from Cons.prems(1) obtain p q r where p: "subscript old k0 = Inr p"
    and r: "tree_map2 (combination ow nw) p q = Inr r"
    and rest: "combine_keys ow nw old new ks (AList.update k0 r acc) = Inr res"
    by (auto simp: ebind_def split: sum.splits)
  from wf_tree_subscript[OF Cons.prems(2) p] tree_map2_wf(1)[OF r] have "wf_tree r" by simp
  from Cons.IH[OF rest Cons.prems(2) wf_items_update[OF Cons.prems(3) this]] show ?case .
qed

lemma keep_other_keys_wf:
  "wf_items items \<Longrightarrow> wf_items acc \<Longrightarrow> wf_items (keep_other_keys items ks acc)"
proof (induction items arbitrary: acc)
  case Nil
  then show ?case by simp
next
  case (Cons a rest)
  obtain k v where a: "a = (k, v)" by (cases a)
  from Cons.prems(1) a have wr: "wf_items rest" and wv: "wf_tree v" by (auto simp: wf_items_def)
  show ?case
  proof (cases "k \<in> set ks")
    case True
    with Cons.IH[OF wr Cons.prems(2)] a show ?thesis by simp
  next
    case False
    with Cons.IH[OF wr wf_items_update[OF Cons.prems(2) wv, of k]] a show ?thesis by simp
  qed
qed

lemma interpolate_weights_wf:
  assumes "interpolate_weights old new (Some ks) ow nw True = Inr r" and "wf_tree old"
  shows "wf_tree r \<and> (\<exists>g. param_groups True r = Inr g)"
proof -
  from assms(1) obtain p q c d where p: "subscript old ''params'' = Inr p"
    and c: "combine_keys ow nw p q ks [] = Inr c" and d: "dict_items p = Inr d"
    and r: "r = Dict [(''params'', Dict (keep_other_keys d ks c))]"
    by (auto simp: interpolate_weights_def ebind_def Let_def split: sum.splits)
  from wf_tree_subscript[OF assms(2) p] have wp: "wf_tree p" .
  have "wf_items []" by (simp add: wf_items_def)
  from combine_keys_wf[OF c wp this] have wc: "wf_items c" .
  from d have "p = Dict d" by (simp add: dict_items_Inr)
  with wp have "wf_items d" by (simp add: wf_items_def)
  from keep_other_keys_wf[OF this wc] r show ?thesis
    by (simp add: wf_items_def param_groups_def ebind_def)
qed

lemma shrink_perturbed_wf:
  assumes "shrink_perturbed ext online rng0 spk sf pf = Inr pre" and "wf_tree online"
      and "param_groups True online = Inr g0"
  shows "wf_tree pre \<and> (\<exists>g. param_groups True pre = Inr g)"
proof (cases "spk = []")
  case True
  with assms show ?thesis by (simp add: shrink_perturbed_def)
next
  case False
  with assms(1) have "interpolate_weights online (network_init ext (fst (split ext rng0)))
      (Some spk) sf pf True = Inr pre" by (simp add: shrink_perturbed_def)
  from interpolate_weights_wf[OF this assms(2)] show ?thesis .
qed

lemma jit_reset_online:
  assumes "jit_reset ext online target opt rng0 rt spk sf pf keys = Inr (online', target', opt', rnd)"
  shows "rnd = network_init ext (fst (split ext rng0))
       \<and> (\<exists>pre. shrink_perturbed ext online rng0 spk sf pf = Inr pre
              \<and> copy_params pre rnd keys = Inr online')"
  using assms
  by (auto simp: jit_reset_def shrink_perturbed_def ebind_def Let_def case_prod_unfold
      split: sum.splits if_splits)

text \<open>
  C6 (as the code has it). Take a reset that \<^verbatim>\<open>jit_reset\<close> carries out, on well-formed
  trees with a \<^verbatim>\<open>"params"\<close> layer, where \<open>keys_to_copy\<close> does not name that layer.
  Every group named in \<open>keys_to_copy\<close> is, in the returned online parameters, the group
  of the pre-reset parameters after shrink-and-perturb. Every other group equals the
  group of the fresh random initialisation, provided that the old group has the structure
  of the fresh one and none of its dictionaries, at any depth, has a key named in
  \<open>keys_to_copy\<close>.
\<close>

theorem jit_reset_groups:
  assumes run: "jit_reset ext online target opt rng0 rt spk sf pf keys
                  = Inr (online', target', opt', rnd)"
      and nparams: "''params'' \<notin> set keys"
      and wf_online: "wf_tree online" and wf_rnd: "wf_tree rnd"
      and g0: "param_groups True online = Inr g0"
      and rg: "param_groups True rnd = Inr rg"
  shows "\<exists>pre pg og.
           shrink_perturbed ext online rng0 spk sf pf = Inr pre
         \<and> param_groups True pre = Inr pg
         \<and> param_groups True online' = Inr og
         \<and> (\<forall>k v. map_of pg k = Some v \<and> k \<in> set keys \<longrightarrow> map_of og k = Some v)
         \<and> (\<forall>k v w. map_of pg k = Some v \<and> k \<notin> set keys \<and> map_of rg k = Some w
                  \<and> no_key_inside keys v \<and> same_structure v w
               \<longrightarrow> (\<exists>r. map_of og k = Some r \<and> tree_eq r w))"
proof -
  from jit_reset_online[OF run] obtain pre where
    pre: "shrink_perturbed ext online rng0 spk sf pf = Inr pre"
    and cp: "copy_params pre rnd keys = Inr online'" by blast
  from shrink_perturbed_wf[OF pre wf_online g0] obtain pg where
    wf_pre: "wf_tree pre" and pg: "param_groups True pre = Inr pg" by blast
  from pg obtain top where top: "pre = Dict top" and ptop: "map_of top ''params'' = Some (Dict pg)"
    by (cases pre) (auto simp: param_groups_def ebind_def dict_items_Inr split: option.splits sum.splits)
  from rg obtain rtop where rtop: "rnd = Dict rtop"
    and prtop: "map_of rtop ''params'' = Some (Dict rg)"
    by (cases rnd) (auto simp: param_groups_def ebind_def dict_items_Inr split: option.splits sum.splits)
  from cp top obtain res where res: "copy_items top rnd keys [] = Inr res"
    and o': "online' = Dict res" by (auto split: sum.splits)
  from wf_pre top have dtop: "distinct (map fst top)" by simp
  from ptop have "(''params'', Dict pg) \<in> set top" by (rule map_of_SomeD)
  from copy_items_lookup[OF res dtop, of "''params''", THEN conjunct1, rule_format, OF this] nparams
  obtain wk r where wk: "subscript rnd ''params'' = Inr wk"
    and r: "copy_params (Dict pg) wk keys = Inr r" and mr: "map_of res ''params'' = Some r"
    by auto
  from wk rtop prtop have wk_eq: "wk = Dict rg" by simp
  from r obtain og where og: "copy_items pg (Dict rg) keys [] = Inr og" and r_eq: "r = Dict og"
    unfolding wk_eq by (auto split: sum.splits)
  from o' mr r_eq have og_groups: "param_groups True online' = Inr og"
    by (simp add: param_groups_def ebind_def)
  from ptop have "(''params'', Dict pg) \<in> set top" by (rule map_of_SomeD)
  with wf_pre top have "wf_tree (snd (''params'', Dict pg))" unfolding top wf_tree.simps by blast
  then have wf_pg: "wf_tree (Dict pg)" by simp
  then have dpg: "distinct (map fst pg)" by simp
  from prtop have "(''params'', Dict rg) \<in> set rtop" by (rule map_of_SomeD)
  with wf_rnd rtop have "wf_tree (snd (''params'', Dict rg))" unfolding rtop wf_tree.simps by blast
  then have wf_rg: "wf_tree (Dict rg)" by simp
  have copied: "map_of og k = Some v" if "map_of pg k = Some v" "k \<in> set keys" for k v
  proof -
    from that(1) have "(k, v) \<in> set pg" by (rule map_of_SomeD)
    from copy_items_lookup[OF og dpg, of k, THEN conjunct1, rule_format, OF this] that(2)
    show ?thesis by simp
  qed
  have fresh: "\<exists>r. map_of og k = Some r \<and> tree_eq r w"
    if "map_of pg k = Some v" "k \<notin> set keys" "map_of rg k = Some w"
       "no_key_inside keys v" "same_structure v w" for k v w
  proof -
    from that(1) have kv: "(k, v) \<in> set pg" by (rule map_of_SomeD)
    from copy_items_lookup[OF og dpg, of k, THEN conjunct1, rule_format, OF kv] that(2)
    obtain wk' r' where a1: "subscript (Dict rg) k = Inr wk'"
      and a2: "copy_params v wk' keys = Inr r'" and a3: "map_of og k = Some r'" by auto
    from a1 that(3) have "wk' = w" by simp
    from kv wf_pg have wv: "wf_tree v" by auto
    from that(3) have "(k, w) \<in> set rg" by (rule map_of_SomeD)
    with wf_rg have ww: "wf_tree w" by auto
    from copy_params_fresh[OF that(4) wv ww that(5)[unfolded same_structure_def]]
    obtain r'' where "copy_params v w keys = Inr r''" "tree_all2 (=) r'' w" by blast
    with a2 a3 \<open>wk' = w\<close> show ?thesis by (simp add: tree_eq_def)
  qed
  from pre pg og_groups copied fresh show ?thesis by blast
qed

theorem jit_reset_groups_witness:
  "\<exists>online' target' opt' rnd og.
      jit_reset ex_ext (online_params (ex_agent 14)) (target_network_params (ex_agent 14))
        (optimizer_state (ex_agent 14)) 3 True [''encoder''] 2 1 keys_to_copy
        = Inr (online', target', opt', rnd)
    \<and> param_groups True online' = Inr og
    \<and> map_of og ''encoder'' = Some (Leaf [16])
    \<and> (\<exists>r. map_of og ''head'' = Some r \<and> tree_eq r (Leaf [106]))"
proof -
  let ?online = "online_params (ex_agent 14)"
  let ?rnd = "Dict [(''params'', Dict [(''encoder'', Leaf [6]), (''head'', Leaf [106])])]"
  obtain online' target' opt' where
    run: "jit_reset ex_ext ?online (target_network_params (ex_agent 14))
        (optimizer_state (ex_agent 14)) 3 True [''encoder''] 2 1 keys_to_copy
        = Inr (online', target', opt', ?rnd)"
    by (simp add: jit_reset_def interpolate_weights_def combination_def ex_agent_def ex_ext_def
        keys_to_copy_def ebind_def Let_def)
  have h2: "''params'' \<notin> set keys_to_copy" by (simp add: keys_to_copy_def)
  have h3: "wf_tree ?online" by (simp add: ex_agent_def)
  have h4: "wf_tree ?rnd" by simp
  have h5: "param_groups True ?online = Inr [(''encoder'', Leaf [5]), (''head'', Leaf [6])]"
    by (simp add: param_groups_def ex_agent_def ebind_def)
  have h6: "param_groups True ?rnd = Inr [(''encoder'', Leaf [6]), (''head'', Leaf [106])]"
    by (simp add: param_groups_def ebind_def)
  have sp: "shrink_perturbed ex_ext ?online 3 [''encoder''] 2 1
          = Inr (Dict [(''params'', Dict [(''encoder'', Leaf [16]), (''head'', Leaf [6])])])"
    by (simp add: shrink_perturbed_def interpolate_weights_def combination_def ex_agent_def
        ex_ext_def ebind_def Let_def)
  from jit_reset_groups [OF run h2 h3 h4 h5 h6] obtain pre pg og where
    a: "shrink_perturbed ex_ext ?online 3 [''encoder''] 2 1 = Inr pre"
    and b: "param_groups True pre = Inr pg"
    and c: "param_groups True online' = Inr og"
    and d: "\<forall>k v. map_of pg k = Some v \<and> k \<in> set keys_to_copy \<longrightarrow> map_of og k = Some v"
    and e: "\<forall>k v w. map_of pg k = Some v \<and> k \<notin> set keys_to_copy
                  \<and> map_of [(''encoder'', Leaf [6]), (''head'', Leaf [106])] k = Some w
                  \<and> no_key_inside keys_to_copy v \<and> same_structure v w
               \<longrightarrow> (\<exists>r. map_of og k = Some r \<and> tree_eq r w)"
    by blast
  from a sp have "pre = Dict [(''params'', Dict [(''encoder'', Leaf [16]), (''head'', Leaf [6])])]"
    by simp
  with b have pg: "pg = [(''encoder'', Leaf [16]), (''head'', Leaf [6])]"
    by (simp add: param_groups_def ebind_def)
  from d[rule_format, of "''encoder''" "Leaf [16]"] pg
  have enc: "map_of og ''encoder'' = Some (Leaf [16])" by (simp add: keys_to_copy_def)
  from e[rule_format, of "''head''" "Leaf [6]" "Leaf [106]"] pg
  have "\<exists>r. map_of og ''head'' = Some r \<and> tree_eq r (Leaf [106])"
    by (simp add: keys_to_copy_def same_structure_def)
  with run c enc show ?thesis by blast
qed

text \<open>
  C6 as the claim words it fails where a group that is not copied has, deeper inside, a
  key that \<open>keys_to_copy\<close> names: \<^verbatim>\<open>copy_params\<close> tests \<^verbatim>\<open>k in keys\<close> at every depth.
  Below, the head is not in \<open>keys_to_copy\<close>, and after the reset its sub-module
  \<open>encoder\<close> still holds the old \<open>[6]\<close> where the fresh initialisation has \<open>[106]\<close>.
\<close>

theorem jit_reset_nested_key_counterexample:
  "jit_reset nested_ext nested_online nested_online [[(''inner_state'', Tup [Leaf [9]])]]
       3 False [] 1 0 keys_to_copy
     = Inr (Dict [(''params'',
              Dict [(''encoder'', Leaf [5]),
                    (''head'', Dict [(''encoder'', Leaf [6]), (''w'', Leaf [206])])])],
            nested_online,
            [[(''inner_state'', Tup [Dict [(''params'',
              Dict [(''encoder'', Leaf [5]),
                    (''head'', Dict [(''encoder'', Leaf [6]), (''w'', Leaf [206])])])]])]],
            Dict [(''params'',
              Dict [(''encoder'', Leaf [6]),
                    (''head'', Dict [(''encoder'', Leaf [106]), (''w'', Leaf [206])])])])
   \<and> ''head'' \<notin> set keys_to_copy
   \<and> \<not> tree_eq (Dict [(''encoder'', Leaf [6]), (''w'', Leaf [206])])
                (Dict [(''encoder'', Leaf [106]), (''w'', Leaf [206])])"
  by (simp add: jit_reset_def nested_ext_def nested_online_def ex_ext_def keys_to_copy_def
      tree_eq_def ebind_def Let_def)

subsection \<open>The scheduler\<close>

text \<open>
  C4 (as the code has it). Let \<open>initial_value\<close> and \<open>final_value\<close> lie in \<open>(0, 1]\<close>, and
  below 1 when \<open>reverse\<close> is set; let \<open>decay_period\<close> be at least 0, and \<open>reverse\<close> not
  set when it is 0. Then the schedule is \<open>initial_value\<close> at every step below
  \<open>warmup_steps\<close>, and at \<open>warmup_steps\<close> itself when \<open>decay_period > 0\<close>; it is
  \<open>final_value\<close> at every step from \<open>warmup_steps + decay_period\<close> on. For
  \<open>decay_period = 0\<close> this is the step function that switches at \<open>warmup_steps\<close>, where
  it already has \<open>final_value\<close>.
\<close>

theorem exponential_decay_scheduler_endpoints:
  assumes "0 < initial_value" and "initial_value \<le> 1" and "0 < final_value" and "final_value \<le> 1"
      and "reverse \<longrightarrow> initial_value < 1 \<and> final_value < 1"
      and "0 \<le> decay_period" and "decay_period = 0 \<longrightarrow> \<not> reverse"
  shows "(step < warmup_steps \<or> (step = warmup_steps \<and> 0 < decay_period) \<longrightarrow>
           exponential_decay_scheduler decay_period warmup_steps initial_value final_value reverse step
             = Fin initial_value)
       \<and> (warmup_steps + decay_period \<le> step \<longrightarrow>
           exponential_decay_scheduler decay_period warmup_steps initial_value final_value reverse step
             = Fin final_value)"
proof (cases "decay_period = 0")
  case True
  with assms show ?thesis by (auto simp: exponential_decay_scheduler_def Let_def)
next
  case False
  with assms(6) have pos: "0 < decay_period" by simp
  let ?i = "if reverse then 1 - initial_value else initial_value"
  let ?f = "if reverse then 1 - final_value else final_value"
  from assms have ipos: "0 < ?i" and fpos: "0 < ?f" by auto
  have early: "np_clip ((decay_period + warmup_steps - step) / decay_period) 0 1 = 1"
    if "step \<le> warmup_steps"
  proof -
    from that pos have "1 \<le> (decay_period + warmup_steps - step) / decay_period" by simp
    then show ?thesis by (simp add: np_clip_def)
  qed
  have late: "np_clip ((decay_period + warmup_steps - step) / decay_period) 0 1 = 0"
    if "warmup_steps + decay_period \<le> step"
  proof -
    from that pos have "(decay_period + warmup_steps - step) / decay_period \<le> 0"
      by (simp add: divide_le_0_iff)
    then show ?thesis by (simp add: np_clip_def)
  qed
  have a: "exponential_decay_scheduler decay_period warmup_steps initial_value final_value reverse step
             = Fin initial_value" if "step \<le> warmup_steps"
    using False ipos fpos early[OF that]
    by (cases reverse) (simp_all add: exponential_decay_scheduler_def Let_def np_log_def)
  have b: "exponential_decay_scheduler decay_period warmup_steps initial_value final_value reverse step
             = Fin final_value" if "warmup_steps + decay_period \<le> step"
    using False ipos fpos late[OF that]
    by (cases reverse) (simp_all add: exponential_decay_scheduler_def Let_def np_log_def)
  from a b show ?thesis by auto
qed

theorem exponential_decay_scheduler_endpoints_witness:
  "exponential_decay_scheduler 10 5 1 (1/2) False 5 = Fin 1
   \<and> exponential_decay_scheduler 10 5 1 (1/2) False 15 = Fin (1/2)
   \<and> exponential_decay_scheduler 0 5 1 (1/2) False 4 = Fin 1
   \<and> exponential_decay_scheduler 0 5 1 (1/2) False 5 = Fin (1/2)
   \<and> exponential_decay_scheduler 10 0 (9/10) (1/2) True 0 = Fin (9/10)
   \<and> exponential_decay_scheduler 10 0 (9/10) (1/2) True 10 = Fin (1/2)"
  using exponential_decay_scheduler_endpoints [of 1 "1/2" False 10 5 5]
    exponential_decay_scheduler_endpoints [of 1 "1/2" False 10 15 5]
    exponential_decay_scheduler_endpoints [of 1 "1/2" False 0 4 5]
    exponential_decay_scheduler_endpoints [of 1 "1/2" False 0 5 5]
    exponential_decay_scheduler_endpoints [of "9/10" "1/2" True 10 0 0]
    exponential_decay_scheduler_endpoints [of "9/10" "1/2" True 10 10 0]
  by simp

text \<open>
  C4 as the claim words it fails in four places. With \<open>decay_period = 0\<close> the schedule
  at \<open>step = warmup_steps\<close> is \<open>final_value\<close>, not \<open>initial_value\<close>. With \<open>reverse\<close> and
  \<open>final_value = 1\<close> the logarithm of 0 is taken and the schedule at the end of the decay
  is \<open>nan\<close>. With a negative \<open>decay_period\<close> the schedule at step 0, before the warm-up
  ends, is \<open>final_value\<close>. With \<open>decay_period = 0\<close> and \<open>reverse\<close> the step function
  returns \<open>1 - initial_value\<close>.
\<close>

theorem exponential_decay_scheduler_counterexample:
  "exponential_decay_scheduler 0 5 1 (1/2) False 5 = Fin (1/2)
   \<and> exponential_decay_scheduler 0 5 1 (1/2) False 5 \<noteq> Fin 1
   \<and> exponential_decay_scheduler 10 0 (1/2) 1 True 10 = NaN
   \<and> exponential_decay_scheduler 10 0 (1/2) 1 True 10 \<noteq> Fin 1
   \<and> exponential_decay_scheduler (-10) 20 1 (1/2) False 0 = Fin (1/2)
   \<and> exponential_decay_scheduler (-10) 20 1 (1/2) False 0 \<noteq> Fin 1
   \<and> exponential_decay_scheduler 0 5 (9/10) (1/2) True 0 = Fin (1/10)
   \<and> exponential_decay_scheduler 0 5 (9/10) (1/2) True 0 \<noteq> Fin (9/10)"
  by (simp add: exponential_decay_scheduler_def Let_def np_log_def np_clip_def)

subsection \<open>The categorical projection\<close>

lemma xsum_Fin: "foldl xadd (Fin a) (map Fin rs) = Fin (a + sum_list rs)"
  by (induction rs arbitrary: a) (auto simp: algebra_simps)

lemma emap_map: "(\<And>z. f (g z) = Inr (h z)) \<Longrightarrow> emap f (map g zs) = Inr (map h zs)"
  by (induction zs) (auto simp: ebind_def)

lemma project_distribution_real:
  assumes "target_support \<noteq> []" and "spacing target_support \<noteq> 0"
      and "length supports = length weights"
  shows "project_distribution supports weights target_support
           = Inr (map Fin (projected supports weights target_support))"
proof -
  from assms(1) obtain z0 zs where ts: "target_support = z0 # zs" by (cases target_support) auto
  let ?d = "spacing target_support"
  let ?cs = "map (\<lambda>s. np_clip s (hd target_support) (last target_support)) supports"
  have delta: "xdiv (last target_support - z0) (real (length target_support - 1)) = Fin ?d"
  proof -
    from assms(2) have "real (length target_support - 1) \<noteq> 0" by (auto simp: spacing_def)
    then show ?thesis using ts by (simp add: xdiv_def spacing_def)
  qed
  have q: "xclip (one_minus (xdiv \<bar>c - z\<bar> ?d)) 0 1 = Fin (hat ?d z c)" for c z
    using assms(2) by (simp add: xdiv_def hat_def)
  have row: "broadcast_mul (map (\<lambda>c. xclip (one_minus (xdivx \<bar>c - z\<bar> (Fin ?d))) 0 1) ?cs) weights
        = Inr (map Fin (map2 (\<lambda>c w. hat ?d z c * w) ?cs weights))" for z
    using assms(3)
    by (simp add: broadcast_mul_def q zip_map1 comp_def case_prod_unfold mult.commute)
  have sum: "xsum (map (\<lambda>x. Fin (f x)) xs) = Fin (sum_list (map f xs))" for f and xs :: "(real \<times> real) list"
    using xsum_Fin[of 0 "map f xs"] by (simp add: xsum_def comp_def)
  have rows: "emap (\<lambda>row. broadcast_mul row weights)
          (map (\<lambda>z. map (\<lambda>c. xclip (one_minus (xdivx \<bar>c - z\<bar> (Fin ?d))) 0 1) ?cs) target_support)
        = Inr (map (\<lambda>z. map Fin (map2 (\<lambda>c w. hat ?d z c * w) ?cs weights)) target_support)"
    (is "emap ?f (map ?g target_support) = Inr (map ?h target_support)")
    by (rule emap_map) (rule row)
  have "project_distribution supports weights target_support
      = ebind (emap (\<lambda>row. broadcast_mul row weights)
          (map (\<lambda>z. map (\<lambda>c. xclip (one_minus (xdivx \<bar>c - z\<bar> (Fin ?d))) 0 1) ?cs) target_support))
          (\<lambda>inner_prod. Inr (map xsum inner_prod))"
    using delta ts by (simp add: project_distribution_def Let_def del: xdivx.simps)
  also have "\<dots> = Inr (map Fin (projected supports weights target_support))"
    unfolding rows by (simp add: ebind_def projected_def sum comp_def)
  finally show ?thesis .
qed

lemma tri_sum:
  fixes u :: real
  assumes "0 \<le> u"
  shows "(\<Sum>i<n. np_clip (1 - \<bar>u - real i\<bar>) 0 1)
           = (if n = 0 then 0 else if u \<le> real n - 1 then 1 else max 0 (real n - u))"
proof (induction n)
  case 0
  show ?case by simp
next
  case (Suc n)
  show ?case
  proof (cases "n = 0")
    case True
    with assms show ?thesis by (auto simp: np_clip_def)
  next
    case False
    with Suc have ih: "(\<Sum>i<n. np_clip (1 - \<bar>u - real i\<bar>) 0 1)
           = (if u \<le> real n - 1 then 1 else max 0 (real n - u))" by simp
    have "(\<Sum>i<Suc n. np_clip (1 - \<bar>u - real i\<bar>) 0 1)
            = (if u \<le> real n - 1 then 1 else max 0 (real n - u)) + np_clip (1 - \<bar>u - real n\<bar>) 0 1"
      using ih by simp
    also have "\<dots> = (if u \<le> real (Suc n) - 1 then 1 else max 0 (real (Suc n) - u))"
      by (auto simp: np_clip_def)
    finally show ?thesis by simp
  qed
qed

lemma grid_facts:
  assumes "2 \<le> length zs" and "sorted_wrt (<) zs" and "equally_spaced zs"
  shows "0 < spacing zs"
    and "\<And>i. i < length zs \<Longrightarrow> zs ! i = hd zs + real i * spacing zs"
    and "last zs = hd zs + real (length zs - 1) * spacing zs"
proof -
  from assms(1) have ne: "zs \<noteq> []" by auto
  from assms(1) have "0 < length zs - 1" "length zs - 1 < length zs" by auto
  from sorted_wrt_nth_less[OF assms(2) this] have "zs ! 0 < zs ! (length zs - 1)" .
  then have "hd zs < last zs" using ne by (simp add: hd_conv_nth last_conv_nth)
  moreover from assms(1) have "0 < real (length zs - 1)" by simp
  ultimately show pos: "0 < spacing zs" by (simp add: spacing_def)
  show nth: "zs ! i = hd zs + real i * spacing zs" if "i < length zs" for i
  proof -
    from assms(3) have "zs ! i = map (\<lambda>i. hd zs + real i * spacing zs) [0..<length zs] ! i"
      unfolding equally_spaced_def spacing_def by simp
    with that show ?thesis by simp
  qed
  from assms(1) have "0 < real (length zs - 1)" by simp
  then show "last zs = hd zs + real (length zs - 1) * spacing zs"
    by (simp add: spacing_def)
qed

lemma hat_grid:
  assumes "0 < d"
  shows "hat d (z0 + real i * d) c = np_clip (1 - \<bar>(c - z0) / d - real i\<bar>) 0 1"
proof -
  have "(c - (z0 + real i * d)) / d = (c - z0) / d - real i"
    using assms by (simp add: field_simps)
  then have "\<bar>c - (z0 + real i * d)\<bar> / d = \<bar>(c - z0) / d - real i\<bar>"
    using assms by (metis abs_divide abs_of_pos)
  then show ?thesis by (simp add: hat_def)
qed

lemma hat_sum_grid:
  assumes "2 \<le> length zs" and "sorted_wrt (<) zs" and "equally_spaced zs"
      and "hd zs \<le> c" and "c \<le> last zs"
  shows "sum_list (map (\<lambda>z. hat (spacing zs) z c) zs) = 1"
proof -
  let ?d = "spacing zs" and ?n = "length zs"
  note g = grid_facts[OF assms(1-3)]
  have "sum_list (map (\<lambda>z. hat ?d z c) zs) = (\<Sum>i<?n. hat ?d (zs ! i) c)"
    by (simp add: sum_list_sum_nth atLeast0LessThan)
  also have "\<dots> = (\<Sum>i<?n. np_clip (1 - \<bar>(c - hd zs) / ?d - real i\<bar>) 0 1)"
    by (rule sum.cong) (simp_all add: g(2) hat_grid[OF g(1)])
  also have "\<dots> = 1"
  proof -
    from assms(4) g(1) have u0: "0 \<le> (c - hd zs) / ?d" by simp
    from assms(5) g(3) have "c - hd zs \<le> real (?n - 1) * ?d" by simp
    with g(1) have "(c - hd zs) / ?d \<le> real (?n - 1)" by (simp add: pos_divide_le_eq)
    with assms(1) have u1: "(c - hd zs) / ?d \<le> real ?n - 1" by (simp add: of_nat_diff)
    from assms(1) have "?n \<noteq> 0" by auto
    with tri_sum[OF u0, of ?n] u1 show ?thesis by simp
  qed
  finally show ?thesis .
qed

lemma sum_list_swap:
  "sum_list (map (\<lambda>z. sum_list (map (\<lambda>p. q z (fst p) * snd p) ps)) zs)
     = sum_list (map (\<lambda>p. sum_list (map (\<lambda>z. q z (fst p)) zs) * snd p) (ps :: (real \<times> real) list))"
proof (induction ps)
  case Nil
  show ?case by simp
next
  case (Cons p ps)
  have "sum_list (map (\<lambda>z. sum_list (map (\<lambda>p. q z (fst p) * snd p) (p # ps))) zs)
      = sum_list (map (\<lambda>z. q z (fst p) * snd p) zs)
        + sum_list (map (\<lambda>z. sum_list (map (\<lambda>p. q z (fst p) * snd p) ps)) zs)"
    by (simp add: sum_list_addf)
  also have "sum_list (map (\<lambda>z. q z (fst p) * snd p) zs) = sum_list (map (\<lambda>z. q z (fst p)) zs) * snd p"
    by (simp add: sum_list_mult_const)
  finally show ?case using Cons.IH by simp
qed

lemma np_clip_range: "lo \<le> hi \<Longrightarrow> lo \<le> np_clip s lo hi \<and> np_clip s lo hi \<le> hi"
  by (auto simp: np_clip_def)

lemma hat_nonneg: "0 \<le> hat d z c"
  by (simp add: hat_def np_clip_def)

lemma projected_nonneg:
  assumes "\<forall>w\<in>set weights. 0 \<le> w"
  shows "\<forall>p\<in>set (projected supports weights target_support). 0 \<le> p"
proof -
  have "0 \<le> sum_list (map2 (\<lambda>c w. hat d z c * w) cs weights)" for d z cs
  proof (rule sum_list_nonneg)
    fix x assume "x \<in> set (map2 (\<lambda>c w. hat d z c * w) cs weights)"
    then obtain c w where "(c, w) \<in> set (zip cs weights)" "x = hat d z c * w" by auto
    moreover from this(1) have "w \<in> set weights" by (rule set_zip_rightD)
    ultimately show "0 \<le> x" using assms hat_nonneg by simp
  qed
  then show ?thesis by (auto simp: projected_def)
qed

lemma projected_sum:
  assumes "2 \<le> length zs" and "sorted_wrt (<) zs" and "equally_spaced zs"
      and "length supports = length weights"
  shows "sum_list (projected supports weights zs) = sum_list weights"
proof -
  let ?cs = "map (\<lambda>s. np_clip s (hd zs) (last zs)) supports"
  let ?ps = "zip ?cs weights"
  let ?d = "spacing zs"
  note g = grid_facts[OF assms(1-3)]
  from g(1,3) have le: "hd zs \<le> last zs" by simp
  have "sum_list (projected supports weights zs)
      = sum_list (map (\<lambda>z. sum_list (map (\<lambda>p. hat ?d z (fst p) * snd p) ?ps)) zs)"
    by (simp add: projected_def case_prod_unfold)
  also have "\<dots> = sum_list (map (\<lambda>p. sum_list (map (\<lambda>z. hat ?d z (fst p)) zs) * snd p) ?ps)"
    by (rule sum_list_swap)
  also have "\<dots> = sum_list (map (\<lambda>p. snd p) ?ps)"
  proof (rule arg_cong[where f = sum_list], rule map_cong[OF refl])
    fix p assume "p \<in> set ?ps"
    then have "(fst p, snd p) \<in> set ?ps" by simp
    then have "fst p \<in> set ?cs" by (rule set_zip_leftD)
    then obtain s where "fst p = np_clip s (hd zs) (last zs)" by auto
    with np_clip_range[OF le, of s] have "hd zs \<le> fst p" "fst p \<le> last zs" by simp_all
    from hat_sum_grid[OF assms(1-3) this]
    show "sum_list (map (\<lambda>z. hat ?d z (fst p)) zs) * snd p = snd p" by simp
  qed
  also have "\<dots> = sum_list weights"
    using assms(4) by (simp add: map_snd_zip flip: map_map)
  finally show ?thesis .
qed

text \<open>
  C2. For a target support of at least two atoms, strictly increasing and equally
  spaced, for weights that are not negative and sum to 1, and for any support vector of
  the length of the weights, \<^verbatim>\<open>project_distribution\<close> returns a vector of finite numbers,
  one for each atom, none of them negative, that sum to 1.
\<close>

theorem project_distribution_is_distribution:
  assumes "2 \<le> length target_support" and "sorted_wrt (<) target_support"
      and "equally_spaced target_support"
      and "length supports = length weights"
      and "\<forall>w\<in>set weights. 0 \<le> w" and "sum_list weights = 1"
  shows "\<exists>out. project_distribution supports weights target_support = Inr (map Fin out)
           \<and> length out = length target_support
           \<and> (\<forall>p\<in>set out. 0 \<le> p) \<and> sum_list out = 1"
proof -
  from assms(1) have ne: "target_support \<noteq> []" by auto
  from grid_facts(1)[OF assms(1-3)] have "spacing target_support \<noteq> 0" by simp
  from project_distribution_real[OF ne this assms(4)]
  have "project_distribution supports weights target_support
          = Inr (map Fin (projected supports weights target_support))" .
  moreover have "length (projected supports weights target_support) = length target_support"
    by (simp add: projected_def)
  moreover note projected_nonneg[OF assms(5), of supports target_support]
  moreover from projected_sum[OF assms(1-4)] assms(6)
  have "sum_list (projected supports weights target_support) = 1" by simp
  ultimately show ?thesis by blast
qed

lemma hat_delta:
  assumes "2 \<le> length zs" and "sorted_wrt (<) zs" and "equally_spaced zs"
      and "i < length zs" and "j < length zs"
  shows "hat (spacing zs) (zs ! i) (zs ! j) = (if i = j then 1 else 0)"
proof -
  note g = grid_facts[OF assms(1-3)]
  have "(zs ! j - hd zs) / spacing zs = real j"
    using g(1) g(2)[OF assms(5)] by simp
  then have "hat (spacing zs) (zs ! i) (zs ! j) = np_clip (1 - \<bar>real j - real i\<bar>) 0 1"
    using g(2)[OF assms(4)] hat_grid[OF g(1), of "hd zs" i "zs ! j"] by simp
  also have "\<dots> = (if i = j then 1 else 0)"
  proof (cases "i = j")
    case True
    then show ?thesis by (simp add: np_clip_def)
  next
    case False
    then have "1 \<le> \<bar>real j - real i\<bar>" by (cases "i < j") auto
    then show ?thesis using False by (simp add: np_clip_def)
  qed
  finally show ?thesis .
qed

lemma clip_grid_id:
  assumes "2 \<le> length zs" and "sorted_wrt (<) zs" and "equally_spaced zs"
  shows "map (\<lambda>s. np_clip s (hd zs) (last zs)) zs = zs"
proof (rule map_idI)
  fix z assume "z \<in> set zs"
  then obtain i where i: "i < length zs" and z: "z = zs ! i" by (auto simp: in_set_conv_nth)
  note g = grid_facts[OF assms(1-3)]
  from i have "real i \<le> real (length zs - 1)" by simp
  with g(1) have "real i * spacing zs \<le> real (length zs - 1) * spacing zs"
    by (simp add: mult_right_mono)
  with g(1) g(2)[OF i] g(3) z have "hd zs \<le> z" "z \<le> last zs" by simp_all
  then show "np_clip z (hd zs) (last zs) = z" by (simp add: np_clip_def)
qed

lemma projected_aligned:
  assumes "2 \<le> length zs" and "sorted_wrt (<) zs" and "equally_spaced zs"
      and "length weights = length zs"
  shows "projected zs weights zs = weights"
proof (rule nth_equalityI)
  show "length (projected zs weights zs) = length weights"
    using assms(4) by (simp add: projected_def)
next
  fix i assume "i < length (projected zs weights zs)"
  then have i: "i < length zs" by (simp add: projected_def)
  let ?row = "map2 (\<lambda>c w. hat (spacing zs) (zs ! i) c * w) zs weights"
  have len: "length ?row = length zs" using assms(4) by simp
  have "projected zs weights zs ! i = sum_list ?row"
    using i by (simp add: projected_def clip_grid_id[OF assms(1-3)])
  also have "\<dots> = (\<Sum>j<length zs. ?row ! j)"
    unfolding sum_list_sum_nth len by (simp add: atLeast0LessThan)
  also have "\<dots> = (\<Sum>j<length zs. (if i = j then 1 else 0) * weights ! j)"
  proof (rule sum.cong[OF refl])
    fix j assume "j \<in> {..<length zs}"
    then have j: "j < length zs" by simp
    with assms(4) have "?row ! j = hat (spacing zs) (zs ! i) (zs ! j) * weights ! j" by simp
    with hat_delta[OF assms(1-3) i j] show "?row ! j = (if i = j then 1 else 0) * weights ! j"
      by simp
  qed
  also have "\<dots> = (\<Sum>j<length zs. if j = i then weights ! j else 0)"
    by (rule sum.cong) auto
  also have "\<dots> = weights ! i" using i by (simp add: sum.delta)
  finally show "projected zs weights zs ! i = weights ! i" .
qed

text \<open>
  C8. For a target support of at least two atoms, strictly increasing and equally
  spaced, and weights of the same length, projecting the distribution that already sits
  on the target support returns the weights unchanged.
\<close>

theorem project_distribution_aligned:
  assumes "2 \<le> length target_support" and "sorted_wrt (<) target_support"
      and "equally_spaced target_support"
      and "length weights = length target_support"
  shows "project_distribution target_support weights target_support = Inr (map Fin weights)"
proof -
  from assms(1) have ne: "target_support \<noteq> []" by auto
  from grid_facts(1)[OF assms(1-3)] have "spacing target_support \<noteq> 0" by simp
  from project_distribution_real[OF ne this assms(4)[symmetric]]
    projected_aligned[OF assms]
  show ?thesis by simp
qed

theorem project_distribution_aligned_witness:
  "project_distribution [-1, 0, 1] [1/4, 1/4, 1/2] [-1, 0, 1] = Inr [Fin (1/4), Fin (1/4), Fin (1/2)]"
  using project_distribution_aligned [of "[-1, 0, 1]" "[1/4, 1/4, 1/2]"]
  by (simp add: equally_spaced_def upt_rec)

theorem project_distribution_is_distribution_witness:
  "\<exists>out. project_distribution [1/10, 1, 19/10] [1/4, 1/4, 1/2] [-1, 0, 1] = Inr (map Fin out)
         \<and> length out = 3 \<and> (\<forall>p\<in>set out. 0 \<le> p) \<and> sum_list out = 1"
  using project_distribution_is_distribution [of "[-1, 0, 1]" "[1/10, 1, 19/10]" "[1/4, 1/4, 1/2]"]
  by (simp add: equally_spaced_def upt_rec numeral_3_eq_3)

subsection \<open>Priorities\<close>

lemma member_le_sum_list_real:
  fixes xs :: "real list"
  shows "x \<in> set xs \<Longrightarrow> \<forall>y\<in>set xs. 0 \<le> y \<Longrightarrow> x \<le> sum_list xs"
proof (induction xs)
  case Nil
  then show ?case by simp
next
  case (Cons a xs)
  then have "0 \<le> sum_list xs" by (simp add: sum_list_nonneg)
  with Cons show ?case by auto
qed

lemma log_softmax_nonpos: "l \<in> set (log_softmax logits) \<Longrightarrow> l \<le> 0"
proof -
  assume "l \<in> set (log_softmax logits)"
  then obtain x where x: "x \<in> set logits" and l: "l = x - ln (sum_list (map exp logits))"
    by (auto simp: log_softmax_def)
  have "exp x \<le> sum_list (map exp logits)"
    using x by (intro member_le_sum_list_real) auto
  moreover have "0 < exp x" by simp
  ultimately have "x \<le> ln (sum_list (map exp logits))"
    by (smt (verit) ln_ge_iff)
  with l show ?thesis by simp
qed

lemma cross_entropy_nonneg:
  assumes "length t = length logits" and "\<forall>a\<in>set t. 0 \<le> a"
  shows "\<exists>l. softmax_cross_entropy_loss_with_logits (map Fin t) logits = Inr (Fin l) \<and> 0 \<le> l"
proof -
  let ?ls = "log_softmax logits"
  have len: "length (map Fin t) = length ?ls" using assms(1) by (simp add: log_softmax_def)
  have "broadcast_mul (map Fin t) ?ls = Inr (map2 (\<lambda>q w. xscale w q) (map Fin t) ?ls)"
    using len by (simp add: broadcast_mul_def)
  also have "map2 (\<lambda>q w. xscale w q) (map Fin t) ?ls = map (\<lambda>p. Fin (snd p * fst p)) (zip t ?ls)"
    by (simp add: zip_map1 case_prod_unfold)
  finally have bm: "broadcast_mul (map Fin t) ?ls = Inr (map (\<lambda>p. Fin (snd p * fst p)) (zip t ?ls))" .
  have xs: "xsum (map (\<lambda>p. Fin (f p)) ps) = Fin (sum_list (map f ps))"
    for f and ps :: "(real \<times> real) list"
    using xsum_Fin[of 0 "map f ps"] by (simp add: xsum_def comp_def)
  have "sum_list (map (\<lambda>p. snd p * fst p) (zip t ?ls)) \<le> 0"
  proof (rule sum_list_nonpos)
    fix x assume "x \<in> set (map (\<lambda>p. snd p * fst p) (zip t ?ls))"
    then obtain a l where al: "(a, l) \<in> set (zip t ?ls)" and x: "x = l * a" by auto
    from al have "a \<in> set t" "l \<in> set ?ls" by (auto dest: set_zip_leftD set_zip_rightD)
    with assms(2) log_softmax_nonpos have "0 \<le> a" "l \<le> 0" by auto
    with x show "x \<le> 0" by (simp add: mult_nonpos_nonneg)
  qed
  then show ?thesis
    by (simp add: softmax_cross_entropy_loss_with_logits_def bm ebind_def xs)
qed

lemma emap_Fin:
  "(\<And>x. x \<in> set xs \<Longrightarrow> \<exists>l. f x = Inr (Fin l) \<and> P l) \<Longrightarrow>
     \<exists>ls. emap f xs = Inr (map Fin ls) \<and> length ls = length xs \<and> (\<forall>l\<in>set ls. P l)"
proof (induction xs)
  case Nil
  show ?case by simp
next
  case (Cons x xs)
  from Cons.prems[of x] obtain l where l: "f x = Inr (Fin l)" "P l" by auto
  from Cons.IH Cons.prems obtain ls where ls: "emap f xs = Inr (map Fin ls)"
    "length ls = length xs" "\<forall>l\<in>set ls. P l" by auto
  have "emap f (x # xs) = Inr (map Fin (l # ls))" using l ls by (simp add: ebind_def)
  moreover have "length (l # ls) = length (x # xs)" using ls by simp
  moreover have "\<forall>a\<in>set (l # ls). P a" using l ls by simp
  ultimately show ?case by blast
qed

lemma dqn_loss_nonneg:
  assumes "2 \<le> length support" and "sorted_wrt (<) support" and "equally_spaced support"
      and "valid_transition support tr"
  shows "\<exists>l. dqn_loss support tr = Inr (Fin l) \<and> 0 \<le> l"
proof -
  let ?ts = "map (\<lambda>z. rewards tr + cumulative_gamma tr * (1 - (if terminals tr then 1 else 0)) * z) support"
  let ?t = "projected ?ts (next_probabilities tr) support"
  from assms(1) have ne: "support \<noteq> []" by auto
  from grid_facts(1)[OF assms(1-3)] have sp: "spacing support \<noteq> 0" by simp
  from assms(4) have len: "length ?ts = length (next_probabilities tr)"
    by (simp add: valid_transition_def)
  from project_distribution_real[OF ne sp len]
  have tgt: "target_output (next_probabilities tr) (rewards tr) (terminals tr) support
               (cumulative_gamma tr) = Inr (map Fin ?t)"
    by (simp add: target_output_def Let_def)
  from assms(4) have "\<forall>a\<in>set ?t. 0 \<le> a"
    by (intro projected_nonneg) (simp add: valid_transition_def)
  moreover from assms(4) have "length ?t = length (chosen_action_logits tr)"
    by (simp add: projected_def valid_transition_def)
  ultimately obtain l where
    "softmax_cross_entropy_loss_with_logits (map Fin ?t) (chosen_action_logits tr) = Inr (Fin l)"
    "0 \<le> l" using cross_entropy_nonneg by blast
  with tgt show ?thesis by (simp add: dqn_loss_def ebind_def)
qed

lemma batch_loss_nonneg:
  assumes "2 \<le> length support" and "sorted_wrt (<) support" and "equally_spaced support"
      and "batch \<noteq> []" and "\<forall>tr\<in>set batch. valid_transition support tr"
  shows "\<exists>m. ebind (emap (dqn_loss support) batch) (\<lambda>losses. Inr (jnp_mean losses)) = Inr (Fin m)
            \<and> 0 \<le> m"
proof -
  have "\<exists>ls. emap (dqn_loss support) batch = Inr (map Fin ls) \<and> length ls = length batch
           \<and> (\<forall>l\<in>set ls. 0 \<le> l)"
    using assms(5) dqn_loss_nonneg[OF assms(1-3)] by (intro emap_Fin) auto
  then obtain ls where ls: "emap (dqn_loss support) batch = Inr (map Fin ls)"
    "length ls = length batch" "\<forall>l\<in>set ls. 0 \<le> l" by blast
  from ls(2) assms(4) have pos: "0 < real (length ls)" by (cases ls) auto
  have "xsum (map Fin ls) = Fin (sum_list ls)" using xsum_Fin[of 0 ls] by (simp add: xsum_def)
  with pos have "jnp_mean (map Fin ls) = Fin (sum_list ls / real (length ls))"
    by (simp add: jnp_mean_def xdiv_def)
  moreover from ls(3) have "0 \<le> sum_list ls / real (length ls)"
    by (simp add: sum_list_nonneg)
  ultimately show ?thesis using ls(1) by (simp add: ebind_def)
qed

text \<open>
  C9. For a support of at least two atoms, strictly increasing and equally spaced, and
  sub-batches that are not empty, of transitions whose next-state probabilities are not
  negative, every priority that a training step writes back is a finite number strictly
  greater than 0, also where the value loss is exactly 0.
\<close>

theorem priorities_positive:
  assumes "2 \<le> length support" and "sorted_wrt (<) support" and "equally_spaced support"
      and "\<forall>batch\<in>set batches. batch \<noteq> [] \<and> (\<forall>tr\<in>set batch. valid_transition support tr)"
  shows "\<exists>ps. priorities support batches = Inr (map Fin ps) \<and> length ps = length batches
            \<and> (\<forall>p\<in>set ps. 0 < p)"
proof -
  let ?f = "\<lambda>batch. ebind (emap (dqn_loss support) batch) (\<lambda>losses. Inr (jnp_mean losses))"
  have "\<exists>ms. emap ?f batches = Inr (map Fin ms) \<and> length ms = length batches
            \<and> (\<forall>m\<in>set ms. 0 \<le> m)"
    using assms(4) batch_loss_nonneg[OF assms(1-3)] by (intro emap_Fin) auto
  then obtain ms where ms: "emap ?f batches = Inr (map Fin ms)" "length ms = length batches"
    "\<forall>m\<in>set ms. 0 \<le> m" by blast
  let ?ps = "map (\<lambda>m. sqrt (m + 1 / 10 ^ 10)) ms"
  have "map (\<lambda>l. np_sqrt (xadd l (Fin (1 / 10 ^ 10)))) (map Fin ms) = map Fin ?ps"
    using ms(3) by (auto simp: comp_def)
  with ms(1) have "priorities support batches = Inr (map Fin ?ps)"
    by (simp add: priorities_def ebind_def)
  moreover have "length ?ps = length batches" using ms(2) by simp
  moreover have "\<forall>p\<in>set ?ps. 0 < p"
  proof
    fix p assume "p \<in> set ?ps"
    then obtain m where "m \<in> set ms" "p = sqrt (m + 1 / 10 ^ 10)" by auto
    with ms(3) show "0 < p" by (simp add: add_nonneg_pos)
  qed
  ultimately show ?thesis by blast
qed

theorem priorities_positive_witness:
  "dqn_loss [-1, 0, 1] zero_loss_transition = Inr (Fin 0)
   \<and> (\<exists>ps. priorities [-1, 0, 1] [[zero_loss_transition]] = Inr (map Fin ps)
           \<and> length ps = 1 \<and> (\<forall>p\<in>set ps. 0 < p))"
proof -
  have "dqn_loss [-1, 0, 1] zero_loss_transition = Inr (Fin 0)"
    by (simp add: dqn_loss_def target_output_def project_distribution_def
        softmax_cross_entropy_loss_with_logits_def log_softmax_def broadcast_mul_def
        zero_loss_transition_def xdiv_def np_clip_def xsum_def ebind_def Let_def)
  moreover have "\<forall>batch\<in>set [[zero_loss_transition]].
        batch \<noteq> [] \<and> (\<forall>tr\<in>set batch. valid_transition [-1, 0, 1] tr)"
    by (simp add: valid_transition_def zero_loss_transition_def)
  from priorities_positive [of "[-1, 0, 1]" "[[zero_loss_transition]]", OF _ _ _ this]
  have "\<exists>ps. priorities [-1, 0, 1] [[zero_loss_transition]] = Inr (map Fin ps)
           \<and> length ps = 1 \<and> (\<forall>p\<in>set ps. 0 < p)"
    by (simp add: equally_spaced_def upt_rec)
  ultimately show ?thesis by blast
qed

subsection \<open>The self-predictive loss\<close>

lemma l2_normalize_Fin:
  "sum_sq v \<noteq> 0 \<Longrightarrow> l2_normalize v = map Fin (l2_normalize_real v)"
  by (simp add: l2_normalize_def l2_normalize_real_def sum_sq_def xdiv_def)

lemma xsum_map_Fin: "xsum (map Fin rs) = Fin (sum_list rs)"
  using xsum_Fin[of 0 rs] by (simp add: xsum_def)

lemma sq_dist_Fin:
  "sq_dist [map Fin a1, map Fin a2] [map Fin b1, map Fin b2]
     = Fin (sq_dist_real a1 b1 + sq_dist_real a2 b2)"
proof -
  have m: "map2 (\<lambda>a b. xsquare (xsub a b)) (map Fin a) (map Fin b)
             = map Fin (map2 (\<lambda>a b. (a - b) * (a - b)) a b)" for a b
    by (simp add: zip_map_map case_prod_unfold)
  have "concat (map2 (map2 (\<lambda>a b. xsquare (xsub a b))) [map Fin a1, map Fin a2] [map Fin b1, map Fin b2])
      = map Fin (map2 (\<lambda>a b. (a - b) * (a - b)) a1 b1 @ map2 (\<lambda>a b. (a - b) * (a - b)) a2 b2)"
    unfolding map_append by (simp add: m del: zip_map_map map_map)
  then show ?thesis
    unfolding sq_dist_def by (simp only: xsum_map_Fin sum_list_append sq_dist_real_def)
qed

lemma entry_dist:
  assumes "good_latent p" and "good_latent z"
  shows "sq_dist (normalized_chunks p) (normalized_chunks z) = Fin (chunk_dist p z)"
  using assms
  by (simp add: normalized_chunks_def good_latent_def l2_normalize_Fin sq_dist_Fin chunk_dist_def)

lemma emap_all: "(\<And>x. x \<in> set xs \<Longrightarrow> f x = Inr (g x)) \<Longrightarrow> emap f xs = Inr (map g xs)"
  by (induction xs) (auto simp: ebind_def)

lemma reshape_all:
  assumes "\<And>row p. row \<in> set m \<Longrightarrow> p \<in> set row \<Longrightarrow> length p = 4096"
  shows "emap (emap reshape_2_2048) m = Inr (map (map (\<lambda>p. [take 2048 p, drop 2048 p])) m)"
proof (rule emap_all)
  fix row assume "row \<in> set m"
  with assms have "\<And>p. p \<in> set row \<Longrightarrow> reshape_2_2048 p = Inr [take 2048 p, drop 2048 p]"
    by (simp add: reshape_2_2048_def)
  then show "emap reshape_2_2048 row = Inr (map (\<lambda>p. [take 2048 p, drop 2048 p]) row)"
    by (rule emap_all)
qed

lemma transpose_rect:
  assumes "rect n xss"
  shows "transpose xss = map (\<lambda>i. map (\<lambda>j. xss ! j ! i) [0..<length xss]) [0..<n]"
proof (rule transpose_rectangle)
  show "xss = [] \<Longrightarrow> n = 0" using assms by (simp add: rect_def)
  show "\<And>i. i < length xss \<Longrightarrow> length (xss ! i) = n" using assms by (simp add: rect_def)
qed

lemma transpose_set:
  assumes "rect n xss" and "row \<in> set (transpose xss)" and "x \<in> set row"
  shows "\<exists>xs\<in>set xss. x \<in> set xs"
proof -
  from assms(2,3) obtain i j where "i < n" "j < length xss" "x = xss ! j ! i"
    unfolding transpose_rect[OF assms(1)] by auto
  moreover from this assms(1) have "length (xss ! j) = n" by (simp add: rect_def)
  ultimately show ?thesis by (metis nth_mem)
qed

lemma map2_transpose:
  assumes "rect n a" and "rect n c" and "length a = length c"
  shows "map2 (map2 f) (transpose a) (transpose c) = transpose (map2 (map2 f) a c)"
    and "rect n (map2 (map2 f) a c)"
proof -
  let ?m = "map2 (map2 f) a c"
  show r: "rect n ?m"
  proof -
    have "length xs = n" if "xs \<in> set ?m" for xs
    proof -
      from that obtain x y where xy: "(x, y) \<in> set (zip a c)" and xs: "xs = map2 f x y" by auto
      from xy have "x \<in> set a" "y \<in> set c" by (auto dest: set_zip_leftD set_zip_rightD)
      with assms(1,2) xs show ?thesis by (simp add: rect_def)
    qed
    moreover from assms have "?m \<noteq> []" by (cases a; cases c) (auto simp: rect_def)
    ultimately show ?thesis by (simp add: rect_def)
  qed
  have len: "length ?m = length a" using assms(3) by simp
  have "transpose ?m = map (\<lambda>i. map (\<lambda>j. ?m ! j ! i) [0..<length a]) [0..<n]"
    using transpose_rect[OF r] len by simp
  also have "\<dots> = map (\<lambda>i. map (\<lambda>j. f (a ! j ! i) (c ! j ! i)) [0..<length a]) [0..<n]"
  proof (rule map_cong[OF refl], rule map_cong[OF refl])
    fix i j assume "i \<in> set [0..<n]" "j \<in> set [0..<length a]"
    then have i: "i < n" and j: "j < length a" by simp_all
    with assms have "length (a ! j) = n" "length (c ! j) = n" by (simp_all add: rect_def)
    with i j assms(3) show "?m ! j ! i = f (a ! j ! i) (c ! j ! i)" by simp
  qed
  also have "\<dots> = map2 (map2 f) (transpose a) (transpose c)"
    unfolding transpose_rect[OF assms(1)] transpose_rect[OF assms(2)] assms(3)[symmetric]
    by (simp add: map2_map_map)
  finally show "map2 (map2 f) (transpose a) (transpose c) = transpose ?m" by simp
qed

lemma transpose_transpose_rect:
  assumes "rect n xss" and "0 < n"
  shows "transpose (transpose xss) = xss"
proof -
  have "sorted (rev (map length xss))"
  proof -
    from assms(1) have "map length xss = replicate (length xss) n"
      by (auto simp: rect_def intro!: nth_equalityI)
    then show ?thesis by (simp add: sorted_replicate)
  qed
  from transpose_transpose[OF this] have "transpose (transpose xss) = takeWhile (\<lambda>x. x \<noteq> []) xss" .
  also have "\<dots> = xss" using assms by (intro takeWhile_eq_all_conv[THEN iffD2]) (auto simp: rect_def)
  finally show ?thesis .
qed

lemma map_length_transpose:
  "rect n xss \<Longrightarrow> map length (transpose xss) = replicate n (length xss)"
  by (simp add: transpose_rect comp_def map_replicate_const)

lemma rect_map: "rect n xss \<Longrightarrow> rect n (map (map f) xss)"
  by (auto simp: rect_def)

lemma map2_map2_zip:
  "map2 f (map2 g xs ys) zs = map (\<lambda>t. f (g (fst t) (fst (snd t))) (snd (snd t))) (zip xs (zip ys zs))"
proof (induction xs arbitrary: ys zs)
  case Nil
  show ?case by simp
next
  case (Cons x xs)
  show ?case by (cases ys; cases zs) (simp_all add: Cons.IH)
qed

lemma rows_zip:
  "map2 (map2 mf) (map2 (map2 sd) (map (map nc) xs) (map (map nc) ys)) (map dr zs)
     = map (\<lambda>t. map2 mf (map2 sd (map nc (fst t)) (map nc (fst (snd t)))) (dr (snd (snd t))))
         (zip xs (zip ys zs))"
proof (induction xs arbitrary: ys zs)
  case Nil
  show ?case by simp
next
  case (Cons x xs)
  show ?case
  proof (cases ys)
    case Nil
    then show ?thesis by simp
  next
    case ys: (Cons y ys')
    show ?thesis
    proof (cases zs)
      case Nil
      then show ?thesis by simp
    next
      case (Cons z zs')
      with ys Cons.IH[of ys' zs'] show ?thesis by (simp del: zip_map_map map_map)
    qed
  qed
qed

lemma row_loss:
  assumes "length ps = T" and "length zs = T" and "length ms = Suc T" and "0 < T"
      and "\<forall>p\<in>set ps. good_latent p" and "\<forall>z\<in>set zs. good_latent z"
  shows "xscale (1 / 2) (jnp_mean
           (map2 (\<lambda>l m. xscale (of_bool m) l)
              (map2 sq_dist (map normalized_chunks ps) (map normalized_chunks zs)) (drop 1 ms)))
         = Fin (transition_spr_loss ps zs ms)"
proof -
  let ?row = "map2 (\<lambda>l m. xscale (of_bool m) l)
              (map2 sq_dist (map normalized_chunks ps) (map normalized_chunks zs)) (drop 1 ms)"
  let ?real = "map2 (\<lambda>pz m. of_bool m * chunk_dist (fst pz) (snd pz)) (zip ps zs) (drop 1 ms)"
  have d: "map2 sq_dist (map normalized_chunks ps) (map normalized_chunks zs)
             = map (\<lambda>pz. Fin (chunk_dist (fst pz) (snd pz))) (zip ps zs)"
  proof -
    have "map2 sq_dist (map normalized_chunks ps) (map normalized_chunks zs)
            = map (\<lambda>pz. sq_dist (normalized_chunks (fst pz)) (normalized_chunks (snd pz))) (zip ps zs)"
      by (simp add: zip_map_map case_prod_unfold)
    also have "\<dots> = map (\<lambda>pz. Fin (chunk_dist (fst pz) (snd pz))) (zip ps zs)"
    proof (rule map_cong[OF refl])
      fix pz assume "pz \<in> set (zip ps zs)"
      then have m: "(fst pz, snd pz) \<in> set (zip ps zs)" by simp
      have "fst pz \<in> set ps" "snd pz \<in> set zs"
        using set_zip_leftD[OF m] set_zip_rightD[OF m] by blast+
      with assms(5,6) entry_dist
      show "sq_dist (normalized_chunks (fst pz)) (normalized_chunks (snd pz))
              = Fin (chunk_dist (fst pz) (snd pz))" by simp
    qed
    finally show ?thesis .
  qed
  have row: "?row = map Fin ?real"
    unfolding d by (simp add: zip_map1 case_prod_unfold)
  have len: "length ?real = T" using assms(1-3) by simp
  have "jnp_mean ?row = Fin (sum_list ?real / real T)"
    unfolding row jnp_mean_def xsum_map_Fin using len assms(4) by (simp add: xdiv_def)
  then show ?thesis
    using assms(1) by (simp add: transition_spr_loss_def)
qed

lemma spr_loss_eq:
  assumes "spr_shapes T latent spr_targets0 same_traj_mask0"
  shows "spr_loss latent spr_targets0 same_traj_mask0
           = Inr (map (\<lambda>t. Fin (transition_spr_loss (fst t) (fst (snd t)) (snd (snd t))))
                    (zip latent (zip spr_targets0 same_traj_mask0)))"
proof -
  let ?mask = "map (drop 1) same_traj_mask0"
  let ?chunks = "\<lambda>p. [take 2048 p, drop 2048 p]"
  let ?pn = "map (map normalized_chunks) latent"
  let ?zn = "map (map normalized_chunks) spr_targets0"
  let ?mf = "\<lambda>l m. xscale (of_bool m) l"
  from assms have T: "0 < T" and ne: "latent \<noteq> []"
    and lz: "length spr_targets0 = length latent" and lm: "length same_traj_mask0 = length latent"
    and gp: "\<forall>ps\<in>set latent. length ps = T \<and> (\<forall>p\<in>set ps. good_latent p)"
    and gz: "\<forall>zs\<in>set spr_targets0. length zs = T \<and> (\<forall>z\<in>set zs. good_latent z)"
    and gm: "\<forall>ms\<in>set same_traj_mask0. length ms = Suc T"
    by (simp_all add: spr_shapes_def)
  have rp: "rect T latent" using ne gp by (simp add: rect_def)
  have rz: "rect T spr_targets0" using ne lz gz by (auto simp: rect_def)
  have rm: "rect T ?mask" using ne lm gm by (auto simp: rect_def)
  have e1: "emap (emap reshape_2_2048) (transpose latent)
              = Inr (map (map ?chunks) (transpose latent))"
  proof (rule reshape_all)
    fix row p assume "row \<in> set (transpose latent)" "p \<in> set row"
    from transpose_set[OF rp this] gp show "length p = 4096" by (auto simp: good_latent_def)
  qed
  have e2: "emap (emap reshape_2_2048) (transpose spr_targets0)
              = Inr (map (map ?chunks) (transpose spr_targets0))"
  proof (rule reshape_all)
    fix row p assume "row \<in> set (transpose spr_targets0)" "p \<in> set row"
    from transpose_set[OF rz this] gz show "length p = 4096" by (auto simp: good_latent_def)
  qed
  have n1: "map (map (map l2_normalize)) (map (map ?chunks) (transpose latent)) = transpose ?pn"
    by (simp add: transpose_map_map comp_def normalized_chunks_def)
  have n2: "map (map (map l2_normalize)) (map (map ?chunks) (transpose spr_targets0)) = transpose ?zn"
    by (simp add: transpose_map_map comp_def normalized_chunks_def)
  have rpn: "rect T ?pn" and rzn: "rect T ?zn" using rp rz by (simp_all add: rect_map)
  have "map length (transpose ?pn) = replicate T (length latent)"
    using map_length_transpose[OF rpn] by simp
  moreover have "map length (transpose ?zn) = replicate T (length latent)"
    using map_length_transpose[OF rzn] lz by simp
  moreover have "map length (transpose ?mask) = replicate T (length latent)"
    using map_length_transpose[OF rm] lm by simp
  ultimately have lens: "map length (transpose ?pn) = map length (transpose ?zn)"
             "map length (transpose ?pn) = map length (transpose ?mask)"
    by simp_all
  let ?d = "map2 (map2 sq_dist) ?pn ?zn"
  have l1: "map2 (map2 sq_dist) (transpose ?pn) (transpose ?zn) = transpose ?d" and rd: "rect T ?d"
    using map2_transpose[OF rpn rzn] lz by simp_all
  let ?g = "map2 (map2 ?mf) ?d ?mask"
  have ld: "length ?d = length ?mask" using lz lm by simp
  have l2: "map2 (map2 ?mf) (transpose ?d) (transpose ?mask) = transpose ?g" and rg: "rect T ?g"
    using map2_transpose[OF rd rm ld] by simp_all
  have tt: "transpose (transpose ?g) = ?g" using transpose_transpose_rect[OF rg T] .
  have "spr_loss latent spr_targets0 same_traj_mask0
          = Inr (map (\<lambda>column. xscale (1 / 2) (jnp_mean column)) ?g)"
    unfolding spr_loss_def Let_def e1 e2 ebind_def sum.case n1 n2
    using lens by (simp only: l1 l2 tt if_False simp_thms)
  also have "?g = map (\<lambda>t. map2 ?mf (map2 sq_dist (map normalized_chunks (fst t))
                                          (map normalized_chunks (fst (snd t))))
                                (drop 1 (snd (snd t))))
                    (zip latent (zip spr_targets0 same_traj_mask0))"
    by (rule rows_zip)
  also have "map (\<lambda>column. xscale (1 / 2) (jnp_mean column)) \<dots>
      = map (\<lambda>t. Fin (transition_spr_loss (fst t) (fst (snd t)) (snd (snd t))))
          (zip latent (zip spr_targets0 same_traj_mask0))"
    unfolding map_map comp_def
  proof (rule map_cong[OF refl])
    fix t assume "t \<in> set (zip latent (zip spr_targets0 same_traj_mask0))"
    then have m1: "(fst t, snd t) \<in> set (zip latent (zip spr_targets0 same_traj_mask0))" by simp
    have a: "fst t \<in> set latent" using set_zip_leftD[OF m1] .
    have "snd t \<in> set (zip spr_targets0 same_traj_mask0)" using set_zip_rightD[OF m1] .
    then have m2: "(fst (snd t), snd (snd t)) \<in> set (zip spr_targets0 same_traj_mask0)" by simp
    have b: "fst (snd t) \<in> set spr_targets0" using set_zip_leftD[OF m2] .
    have c: "snd (snd t) \<in> set same_traj_mask0" using set_zip_rightD[OF m2] .
    from a b c gp gz gm T
    show "xscale (1 / 2) (jnp_mean (map2 ?mf (map2 sq_dist (map normalized_chunks (fst t))
                                          (map normalized_chunks (fst (snd t))))
                                (drop 1 (snd (snd t)))))
          = Fin (transition_spr_loss (fst t) (fst (snd t)) (snd (snd t)))"
      by (intro row_loss[where T = T]) auto
  qed
  finally show ?thesis .
qed

lemma vec_chunks:
  "take 2048 vec_a = 1 # replicate 2047 0" "drop 2048 vec_a = 1 # replicate 2047 0"
  "take 2048 vec_b = 0 # 1 # replicate 2046 0" "drop 2048 vec_b = 0 # 1 # replicate 2046 0"
  "length vec_a = 4096" "length vec_b = 4096"
  by (simp_all add: vec_a_def vec_b_def)

lemma unit_normalized:
  "l2_normalize_real (1 # replicate 2047 0) = 1 # replicate 2047 0"
  "l2_normalize_real (0 # 1 # replicate 2046 0) = 0 # 1 # replicate 2046 0"
  by (simp_all add: l2_normalize_real_def sum_list_replicate)

lemma unit_sum_sq:
  "sum_sq (1 # replicate 2047 0) = 1" "sum_sq (0 # 1 # replicate 2046 0) = 1"
  by (simp_all add: sum_sq_def sum_list_replicate)

lemma unit_dist:
  "sq_dist_real (1 # replicate 2047 0) (0 # 1 # replicate 2046 0) = 2"
  "sq_dist_real (1 # replicate 2047 0) (1 # replicate 2047 0) = 0"
proof -
  have r: "replicate 2047 (0::real) = 0 # replicate 2046 0"
    by (simp add: replicate_Suc[symmetric] del: replicate_Suc)
  show "sq_dist_real (1 # replicate 2047 0) (0 # 1 # replicate 2046 0) = 2"
    unfolding r by (simp add: sq_dist_real_def zip_replicate sum_list_replicate)
  show "sq_dist_real (1 # replicate 2047 0) (1 # replicate 2047 0) = 0"
    by (simp add: sq_dist_real_def zip_replicate sum_list_replicate)
qed

lemma vec_good: "good_latent vec_a" "good_latent vec_b"
  by (simp_all add: good_latent_def vec_chunks unit_sum_sq)

lemma vec_chunk_dist: "chunk_dist vec_a vec_b = 4" "chunk_dist vec_a vec_a = 0"
  by (simp_all add: chunk_dist_def vec_chunks unit_normalized unit_dist)

lemma sq_dist_scaled:
  "sq_dist_real (map (\<lambda>a. a / c) p) (map (\<lambda>a. a / c) z) = sq_dist_real p z * (1 / (c * c))"
proof -
  have "map2 (\<lambda>a b. (a - b) * (a - b)) (map (\<lambda>a. a / c) p) (map (\<lambda>a. a / c) z)
          = map (\<lambda>x. (fst x - snd x) * (fst x - snd x) * (1 / (c * c))) (zip p z)"
    by (simp add: zip_map_map case_prod_unfold diff_divide_distrib[symmetric])
  then show ?thesis
    unfolding sq_dist_real_def
    by (simp add: sum_list_mult_const case_prod_unfold del: times_divide_eq_right)
qed

lemma vec_sum_sq: "sum_sq vec_a = 2" "sum_sq vec_b = 2"
  by (simp_all add: sum_sq_def vec_a_def vec_b_def sum_list_replicate)

lemma vec_dist: "sq_dist_real vec_a vec_b = 4"
proof -
  have r: "replicate 2047 (0::real) = 0 # replicate 2046 0"
    by (simp add: replicate_Suc[symmetric] del: replicate_Suc)
  show ?thesis
    unfolding vec_a_def vec_b_def r
    by (simp add: sq_dist_real_def zip_replicate sum_list_replicate)
qed

lemma vec_whole_dist:
  "sq_dist_real (l2_normalize_real vec_a) (l2_normalize_real vec_b) = 2"
proof -
  have "l2_normalize_real vec_a = map (\<lambda>a. a / sqrt 2) vec_a"
       "l2_normalize_real vec_b = map (\<lambda>a. a / sqrt 2) vec_b"
    using vec_sum_sq by (simp_all add: l2_normalize_real_def sum_sq_def)
  then show ?thesis by (simp add: sq_dist_scaled vec_dist)
qed

lemma spr_counterexample_values:
  "spr_loss [[vec_a]] [[vec_b]] [[True, True]] = Inr [Fin 2]"
  "spr_loss_claimed [[vec_a]] [[vec_b]] [[True, True]] = 1"
  "spr_loss [[vec_a, vec_a, vec_a]] [[vec_b, vec_a, vec_a]] [[True, True, False, False]]
     = Inr [Fin (2 / 3)]"
  "spr_loss_claimed [[vec_a, vec_a, vec_a]] [[vec_b, vec_a, vec_a]] [[True, True, False, False]] = 1"
proof -
  have s1: "spr_shapes 1 [[vec_a]] [[vec_b]] [[True, True]]"
    by (simp add: spr_shapes_def vec_good)
  show "spr_loss [[vec_a]] [[vec_b]] [[True, True]] = Inr [Fin 2]"
    unfolding spr_loss_eq[OF s1] by (simp add: transition_spr_loss_def vec_chunk_dist)
  have s3: "spr_shapes 3 [[vec_a, vec_a, vec_a]] [[vec_b, vec_a, vec_a]] [[True, True, False, False]]"
    by (simp add: spr_shapes_def vec_good)
  show "spr_loss [[vec_a, vec_a, vec_a]] [[vec_b, vec_a, vec_a]] [[True, True, False, False]]
     = Inr [Fin (2 / 3)]"
    unfolding spr_loss_eq[OF s3] by (simp add: transition_spr_loss_def vec_chunk_dist)
  show "spr_loss_claimed [[vec_a]] [[vec_b]] [[True, True]] = 1"
    by (simp add: spr_loss_claimed_def vec_whole_dist)
  show "spr_loss_claimed [[vec_a, vec_a, vec_a]] [[vec_b, vec_a, vec_a]] [[True, True, False, False]] = 1"
    by (simp add: spr_loss_claimed_def vec_whole_dist)
qed

text \<open>
  C3 (as the code has it). For every batch of predicted latents, target latents and
  mask of one shape, the loss of each transition is one half of the mean over all its
  time steps of the squared distance between prediction and target, a step whose
  \<open>same_trajectory\<close> flag is false counting as 0; the distance is taken after each of
  the two 2048-wide halves of a latent has been normalised to unit length on its own.
\<close>

theorem spr_loss_per_transition:
  assumes "spr_shapes T latent spr_targets0 same_traj_mask0"
  shows "spr_loss latent spr_targets0 same_traj_mask0
           = Inr (map (\<lambda>t. Fin (transition_spr_loss (fst t) (fst (snd t)) (snd (snd t))))
                    (zip latent (zip spr_targets0 same_traj_mask0)))"
  using assms by (rule spr_loss_eq)

theorem spr_loss_per_transition_witness:
  "spr_shapes 1 [[vec_a]] [[vec_b]] [[True, True]]
   \<and> spr_loss [[vec_a]] [[vec_b]] [[True, True]] = Inr [Fin 2]"
proof -
  have s1: "spr_shapes 1 [[vec_a]] [[vec_b]] [[True, True]]"
    by (simp add: spr_shapes_def vec_good)
  from spr_loss_per_transition [OF s1]
  have "spr_loss [[vec_a]] [[vec_b]] [[True, True]] = Inr [Fin 2]"
    by (simp add: transition_spr_loss_def vec_chunk_dist)
  with s1 show ?thesis by simp
qed

text \<open>
  C3 as the claim words it fails twice. With one step, which is valid, the code gives 2
  where normalising the whole vector gives 1. With three steps of which only the first
  is valid, the code divides by 3 and gives \<open>2/3\<close>, where the average over the valid
  steps, with either normalisation, does not divide by 3.
\<close>

theorem spr_loss_counterexample:
  "spr_loss [[vec_a]] [[vec_b]] [[True, True]] = Inr [Fin 2]
   \<and> spr_loss_claimed [[vec_a]] [[vec_b]] [[True, True]] = 1
   \<and> spr_loss [[vec_a, vec_a, vec_a]] [[vec_b, vec_a, vec_a]] [[True, True, False, False]]
       = Inr [Fin (2 / 3)]
   \<and> spr_loss [[vec_a, vec_a, vec_a]] [[vec_b, vec_a, vec_a]] [[True, True, False, False]]
       \<noteq> spr_loss [[vec_a]] [[vec_b]] [[True, True]]
   \<and> spr_loss_claimed [[vec_a, vec_a, vec_a]] [[vec_b, vec_a, vec_a]]
         [[True, True, False, False]] = 1"
  by (simp add: spr_counterexample_values)

end
